theory Spec2Isabelle
  imports Complex_Main "HOL-Library.Sublist"
begin

section \<open>Strings and the Unicode database\<close>

text \<open>
  A Python \<open>str\<close> is a sequence of Unicode code points; it is modelled as a list of
  code points (natural numbers). \<open>length\<close> therefore counts what Python's \<open>len\<close> counts.
\<close>

type_synonym codepoint = nat
type_synonym ustring = "codepoint list"

text \<open>ASCII literals of the source, as code points.\<close>

definition ustr :: "string \<Rightarrow> ustring" where
  "ustr s = map of_char s"

text \<open>
  The two functions of the standard module \<open>unicodedata\<close> that the source calls,
  \<open>unicodedata.normalize(form, text)\<close> and \<open>unicodedata.category(ch)\<close>, are not part of
  the repository. They are a parameter of the model.
\<close>

record unicodedata =
  normalize :: "string \<Rightarrow> ustring \<Rightarrow> ustring"
  category :: "codepoint \<Rightarrow> string"

text \<open>\<open>str.startswith\<close> and \<open>str.endswith\<close> with a single string argument.\<close>

definition startswith :: "ustring \<Rightarrow> ustring \<Rightarrow> bool" where
  "startswith s p = (take (length p) s = p)"

definition endswith :: "ustring \<Rightarrow> ustring \<Rightarrow> bool" where
  "endswith s p = (length p \<le> length s \<and> drop (length s - length p) s = p)"

section \<open>Normalizer\<close>

text \<open>
  \<open>FINAL_FORM_TRANSLATION = str.maketrans({...})\<close>: the five Hebrew final letters
  (U+05DA, U+05DD, U+05DF, U+05E3, U+05E5) map to their standard forms
  (U+05DB, U+05DE, U+05E0, U+05E4, U+05E6).
\<close>

definition FINAL_FORM_TRANSLATION :: "(codepoint \<times> codepoint) list" where
  "FINAL_FORM_TRANSLATION =
     [(0x5DA, 0x5DB), (0x5DD, 0x5DE), (0x5DF, 0x5E0), (0x5E3, 0x5E4), (0x5E5, 0x5E6)]"

text \<open>\<open>str.translate\<close> with a table of single code points: unmapped code points stay.\<close>

definition translate_char :: "(codepoint \<times> codepoint) list \<Rightarrow> codepoint \<Rightarrow> codepoint" where
  "translate_char table c = (case map_of table c of None \<Rightarrow> c | Some d \<Rightarrow> d)"

definition translate :: "(codepoint \<times> codepoint) list \<Rightarrow> ustring \<Rightarrow> ustring" where
  "translate table s = map (translate_char table) s"

text \<open>\<open>normalize_for_match\<close>, the same text in both source files.\<close>

definition normalize_for_match :: "unicodedata \<Rightarrow> ustring \<Rightarrow> ustring" where
  "normalize_for_match U text =
     (if text = [] then []
      else let decomposed = normalize U ''NFD'' text;
               stripped = filter (\<lambda>ch. category U ch \<noteq> ''Mn'') decomposed;
               normalized = normalize U ''NFC'' stripped
           in translate FINAL_FORM_TRANSLATION normalized)"

definition maqaf :: codepoint where
  "maqaf = 0x5BE"

text \<open>\<open>strip_diacritics\<close> (statistics script): \<open>text.replace(maqaf, "")\<close> with the maqaf U+05BE, then normalize.\<close>

definition strip_diacritics :: "unicodedata \<Rightarrow> ustring \<Rightarrow> ustring" where
  "strip_diacritics U text = normalize_for_match U (filter (\<lambda>ch. ch \<noteq> maqaf) text)"

section \<open>Search script: the corpus interface and the prefix-span matcher\<close>

text \<open>
  The Text-Fabric API object is an external collaborator. The model keeps what
  \<open>collect_matches\<close> reads from it: the word nodes in corpus order
  (\<open>F.otype.s("word")\<close>), the two text features (\<open>F.g_cons_utf8.v\<close>, \<open>F.g_word_utf8.v\<close>,
  which may return \<open>None\<close>) and \<open>T.sectionFromNode\<close>.
\<close>

type_synonym node = nat

record api =
  word_nodes :: "node list"
  g_cons_utf8 :: "node \<Rightarrow> ustring option"
  g_word_utf8 :: "node \<Rightarrow> ustring option"
  sectionFromNode :: "node \<Rightarrow> (ustring \<times> int \<times> int) option"

text \<open>\<open>x or ""\<close> for a feature value.\<close>

definition or_empty :: "ustring option \<Rightarrow> ustring" where
  "or_empty v = (case v of None \<Rightarrow> [] | Some s \<Rightarrow> s)"

text \<open>The normalized consonantal text of a node, as both loops of the script compute it.\<close>

definition cons_norm :: "unicodedata \<Rightarrow> api \<Rightarrow> node \<Rightarrow> ustring" where
  "cons_norm U a n = normalize_for_match U (or_empty (g_cons_utf8 a n))"

text \<open>
  The \<open>while\<close> loop of \<open>second_span_nodes\<close> together with the \<open>return\<close> after it. The
  state is \<open>idx\<close>, \<open>remaining\<close> and \<open>nodes\<close>; \<open>None\<close> is the source's \<open>return None\<close>.
\<close>

function second_span_loop ::
  "unicodedata \<Rightarrow> api \<Rightarrow> nat \<Rightarrow> ustring \<Rightarrow> node list \<Rightarrow> node list option" where
  "second_span_loop U a idx remaining nodes =
     (if idx < length (word_nodes a) \<and> remaining \<noteq> [] then
        (let nd = word_nodes a ! idx;
             cons = or_empty (g_cons_utf8 a nd);
             norm = normalize_for_match U cons
         in if norm = [] then None
            else if startswith norm remaining then Some (nodes @ [nd])
            else if startswith remaining norm then
              second_span_loop U a (idx + 1) (drop (length norm) remaining) (nodes @ [nd])
            else None)
      else if remaining = [] then Some nodes else None)"
  by pat_completeness auto
termination
  by (relation "measure (\<lambda>(U, a, idx, remaining, nodes). length (word_nodes a) - idx)") auto

declare second_span_loop.simps [simp del]

definition second_span_nodes ::
  "unicodedata \<Rightarrow> api \<Rightarrow> nat \<Rightarrow> ustring \<Rightarrow> node list option" where
  "second_span_nodes U a start_index pref =
     (if pref = [] then None else second_span_loop U a start_index pref [])"

section \<open>Search script: spans, matches and the corpus scanner\<close>

record WordSpan =
  nodes :: "node list"
  consonantal :: ustring
  pointed :: ustring
  reference :: ustring

record InterWordMatch =
  first :: WordSpan
  second :: WordSpan
  "context" :: ustring

text \<open>\<open>str(n)\<close> for an integer, as the f-string of \<open>format_reference\<close> prints it.\<close>

fun str_nat :: "nat \<Rightarrow> ustring" where
  "str_nat n = (if n < 10 then [48 + n] else str_nat (n div 10) @ [48 + n mod 10])"

declare str_nat.simps [simp del]

definition str_int :: "int \<Rightarrow> ustring" where
  "str_int i = (if i < 0 then 45 # str_nat (nat (- i)) else str_nat (nat i))"

definition format_reference :: "(ustring \<times> int \<times> int) option \<Rightarrow> ustring" where
  "format_reference section =
     (case section of
        None \<Rightarrow> ustr ''Unknown reference''
      | Some (book, chapter, verse) \<Rightarrow> book @ [32] @ str_int chapter @ [58] @ str_int verse)"

text \<open>
  \<open>build_span\<close> reads \<open>node_tuple[0]\<close>, so it is defined on non-empty sequences only; both
  call sites pass one. The model takes the first node and the rest.
\<close>

definition build_span :: "api \<Rightarrow> node \<Rightarrow> node list \<Rightarrow> WordSpan" where
  "build_span a n ns =
     (let node_tuple = n # ns
      in \<lparr> nodes = node_tuple,
           consonantal = concat (map (\<lambda>m. or_empty (g_cons_utf8 a m)) node_tuple),
           pointed = concat (map (\<lambda>m. or_empty (g_word_utf8 a m)) node_tuple),
           reference = format_reference (sectionFromNode a n) \<rparr>)"

text \<open>\<open>sep.join(parts)\<close> and \<open>str.strip()\<close> (which removes Python's whitespace).\<close>

fun join :: "ustring \<Rightarrow> ustring list \<Rightarrow> ustring" where
  "join sep [] = []"
| "join sep [x] = x"
| "join sep (x # y # ys) = x @ sep @ join sep (y # ys)"

definition isspace :: "codepoint \<Rightarrow> bool" where
  "isspace c \<longleftrightarrow>
     (9 \<le> c \<and> c \<le> 13) \<or> (28 \<le> c \<and> c \<le> 32) \<or> c = 0x85 \<or> c = 0xA0 \<or> c = 0x1680 \<or>
     (0x2000 \<le> c \<and> c \<le> 0x200A) \<or> c = 0x2028 \<or> c = 0x2029 \<or> c = 0x202F \<or>
     c = 0x205F \<or> c = 0x3000"

definition strip :: "ustring \<Rightarrow> ustring" where
  "strip s = rev (dropWhile isspace (rev (dropWhile isspace s)))"

text \<open>
  One iteration of the \<open>for idx, first_node in enumerate(word_nodes[:-1])\<close> loop of
  \<open>collect_matches\<close>; \<open>continue\<close> leaves \<open>matches\<close> as it is. The progress lines printed
  by the loop are output only and are left out. \<open>max(idx - 3, 0)\<close> is the truncating
  subtraction \<open>idx - 3\<close> on natural numbers, and the slice
  \<open>word_nodes[context_start:context_end]\<close> is a \<open>take\<close> followed by a \<open>drop\<close>.
\<close>

definition scan_step ::
  "unicodedata \<Rightarrow> api \<Rightarrow> ustring \<Rightarrow> ustring \<Rightarrow> InterWordMatch list \<Rightarrow> nat \<times> node
     \<Rightarrow> InterWordMatch list" where
  "scan_step U a suffix_target prefix_target matches p =
     (let idx = fst p; first_node = snd p;
          total_words = length (word_nodes a);
          first_cons = or_empty (g_cons_utf8 a first_node);
          first_norm = normalize_for_match U first_cons
      in if suffix_target \<noteq> [] \<and> \<not> endswith first_norm suffix_target then matches
         else
           (case second_span_nodes U a (idx + 1) prefix_target of
              None \<Rightarrow> matches
            | Some [] \<Rightarrow> matches
            | Some (n # ns) \<Rightarrow>
                (let first_span = build_span a first_node [];
                     second_span = build_span a n ns;
                     span_length = length (n # ns);
                     context_start = idx - 3;
                     context_end = min (idx + 1 + span_length + 3) total_words;
                     context_slice = drop context_start (take context_end (word_nodes a));
                     context_words = map (\<lambda>m. or_empty (g_word_utf8 a m)) context_slice;
                     ctx = strip (join [32] (filter (\<lambda>w. w \<noteq> []) context_words))
                 in matches @ [\<lparr> first = first_span, second = second_span, context = ctx \<rparr>])))"

text \<open>
  \<open>collect_matches\<close> with the two module constants \<open>FIRST_WORD_SUFFIX\<close> and
  \<open>SECOND_WORD_PREFIX\<close> as arguments; the loop runs over \<open>word_nodes[:-1]\<close>.
\<close>

definition collect_matches_for ::
  "unicodedata \<Rightarrow> api \<Rightarrow> ustring \<Rightarrow> ustring \<Rightarrow> InterWordMatch list" where
  "collect_matches_for U a first_word_suffix second_word_prefix =
     (let suffix_target = normalize_for_match U first_word_suffix;
          prefix_target = normalize_for_match U second_word_prefix
      in foldl (scan_step U a suffix_target prefix_target) []
           (enumerate 0 (butlast (word_nodes a))))"

definition WORD_TO_SEARCH :: ustring where
  "WORD_TO_SEARCH = [0x5E9, 0x5DC, 0x5D5, 0x5DE]"

definition FIRST_WORD_SUFFIX :: ustring where
  "FIRST_WORD_SUFFIX = take 2 WORD_TO_SEARCH"

definition SECOND_WORD_PREFIX :: ustring where
  "SECOND_WORD_PREFIX = drop 2 WORD_TO_SEARCH"

definition collect_matches :: "unicodedata \<Rightarrow> api \<Rightarrow> InterWordMatch list" where
  "collect_matches U a = collect_matches_for U a FIRST_WORD_SUFFIX SECOND_WORD_PREFIX"

section \<open>Statistics script: flags\<close>

text \<open>The field \<open>text\<close> of the dataclass is written \<open>text'\<close>.\<close>

record WordInfo =
  text' :: ustring
  book :: ustring

text \<open>
  \<open>load_words\<close> builds one \<open>WordInfo\<close> for each word node: the text is
  \<open>strip_diacritics(F.g_word_utf8.v(node) or "")\<close>, the book is the first component of the
  section, or \<open>"Unknown"\<close>.
\<close>

definition load_words :: "unicodedata \<Rightarrow> api \<Rightarrow> WordInfo list" where
  "load_words U a =
     map (\<lambda>nd. \<lparr> text' = strip_diacritics U (or_empty (g_word_utf8 a nd)),
                 book = (case sectionFromNode a nd of
                           None \<Rightarrow> ustr ''Unknown''
                         | Some sec \<Rightarrow> fst sec) \<rparr>)
       (word_nodes a)"

definition suffix_flags :: "WordInfo list \<Rightarrow> ustring \<Rightarrow> bool list" where
  "suffix_flags words suffix_target =
     (if suffix_target = [] then replicate (length words) True
      else map (\<lambda>word. endswith (text' word) suffix_target) words)"

text \<open>
  The inner \<open>while\<close> loop of \<open>_prefix_flags\<close>. Its state is \<open>idx\<close>, \<open>remaining\<close> and
  \<open>matched\<close>; the result is the pair \<open>(remaining, matched)\<close> that the test after the loop
  reads. Every \<open>break\<close> returns the state it leaves behind.
\<close>

function prefix_loop :: "WordInfo list \<Rightarrow> nat \<Rightarrow> ustring \<Rightarrow> bool \<Rightarrow> ustring \<times> bool" where
  "prefix_loop words idx remaining matched =
     (if idx < length words \<and> remaining \<noteq> [] then
        (let segment = text' (words ! idx)
         in if segment = [] then (remaining, matched)
            else if startswith segment remaining then ([], True)
            else if startswith remaining segment then
              prefix_loop words (idx + 1) (drop (length segment) remaining) True
            else (remaining, matched))
      else (remaining, matched))"
  by pat_completeness auto
termination
  by (relation "measure (\<lambda>(words, idx, remaining, matched). length words - idx)") auto

declare prefix_loop.simps [simp del]

text \<open>The body of \<open>for start in range(total)\<close>: it may set \<open>flags[start]\<close>.\<close>

definition prefix_flags_step :: "WordInfo list \<Rightarrow> ustring \<Rightarrow> bool list \<Rightarrow> nat \<Rightarrow> bool list" where
  "prefix_flags_step words prefix_target flags start =
     (let r = prefix_loop words start prefix_target False;
          remaining = fst r; matched = snd r
      in if remaining = [] \<and> matched then flags[start := True] else flags)"

definition prefix_flags :: "WordInfo list \<Rightarrow> ustring \<Rightarrow> bool list" where
  "prefix_flags words prefix_target =
     (let total = length words;
          flags = replicate total False
      in if prefix_target = [] then flags
         else foldl (prefix_flags_step words prefix_target) flags [0..<total])"

section \<open>Statistics script: the Poisson tail and the statistics record\<close>

text \<open>
  A finite Python float is a real number; \<open>math.inf\<close>, which only \<open>ratio\<close> can hold, is a
  value of its own. Overflow and NaN are outside the model.
\<close>

datatype pyfloat = Finite real | Infinity

text \<open>
  The float arithmetic of \<open>compute_pattern_stats\<close> rounds, and the rounding is the
  interpreter's, not the repository's: the operations are a parameter of the model.
  \<^item> \<open>float_of_int i\<close> is the conversion of an \<open>int\<close> operand that meets a float operand;
  \<^item> \<open>int_truediv i j\<close> is \<open>i / j\<close> for two \<open>int\<close>s;
  \<^item> \<open>fmul x y\<close> and \<open>fdiv x y\<close> are \<open>x * y\<close> and \<open>x / y\<close> for two floats.
  The loop of \<open>_poisson_tail\<close> below is modelled over the real numbers themselves.
\<close>

record float_ops =
  float_of_int :: "int \<Rightarrow> real"
  int_truediv :: "int \<Rightarrow> int \<Rightarrow> real"
  fmul :: "real \<Rightarrow> real \<Rightarrow> real"
  fdiv :: "real \<Rightarrow> real \<Rightarrow> real"

record PatternStats =
  scope :: ustring
  total_words :: int
  suffix_count :: int
  prefix_count :: int
  expected_adjacent :: real
  observed_adjacent :: int
  suffix_percent :: real
  prefix_percent :: real
  ratio :: pyfloat
  p_value :: real

text \<open>
  The \<open>while True\<close> loop of \<open>_poisson_tail\<close>. On entry \<open>k\<close> is \<open>observed\<close>, which is
  positive in the branch that reaches the loop, so \<open>k\<close> is a natural number and \<open>lam / k\<close>
  never divides by zero. The threshold \<open>1e-12\<close> is \<open>1 / 10 ^ 12\<close>.
\<close>

function poisson_loop :: "real \<Rightarrow> nat \<Rightarrow> real \<Rightarrow> real \<Rightarrow> real" where
  "poisson_loop lam k term tail =
     (let k' = k + 1;
          term' = term * (lam / real k');
          tail' = tail + term'
      in if term' < 1 / 10 ^ 12 then tail' else poisson_loop lam k' term' tail')"
  by pat_completeness auto

text \<open>
  Termination: a non-positive \<open>lam\<close> allows one more round at most; otherwise \<open>k\<close> first
  passes \<open>2 * lam\<close>, and from then on a term that stays above the threshold is at most
  half of the one before, so it drops by at least the threshold.
\<close>

termination
proof (relation "measures [\<lambda>(lam, k, t, tail). if lam \<le> 0 \<and> t < 0 then 1 else 0,
                           \<lambda>(lam, k, t, tail). nat \<lceil>2 * lam\<rceil> - k,
                           \<lambda>(lam, k, t, tail). nat \<lceil>t * 10 ^ 12\<rceil>]", goal_cases)
  case 1
  show ?case by simp
next
  case (2 lam k t tail k' t' tail')
  let ?q = "lam / real (k + 1)"
  let ?t' = "t * ?q"
  have eps: "(0::real) < 1 / 10 ^ 12" by simp
  have ge: "1 / 10 ^ 12 \<le> ?t'" using 2 by simp
  have t'pos: "0 < ?t'" using ge eps by linarith
  show ?case
  proof (cases "lam \<le> 0")
    case True
    have "t < 0"
    proof (rule ccontr)
      assume "\<not> t < 0"
      then have "?t' \<le> 0" using True
        by (simp add: mult_nonneg_nonpos divide_nonpos_pos)
      with t'pos show False by simp
    qed
    moreover have "\<not> ?t' < 0" using t'pos by linarith
    ultimately show ?thesis using True 2 by simp
  next
    case False
    then have lam: "0 < lam" by simp
    show ?thesis
    proof (cases "k < nat \<lceil>2 * lam\<rceil>")
      case True
      then show ?thesis using lam 2 by auto
    next
      case False
      then have "nat \<lceil>2 * lam\<rceil> \<le> k" by linarith
      then have "2 * lam \<le> real k" by linarith
      then have q: "?q \<le> 1 / 2" using lam by (simp add: field_simps)
      have qpos: "0 < ?q" using lam by simp
      have tpos: "0 < t" by (rule zero_less_mult_pos2[OF t'pos qpos])
      have "?t' \<le> t * (1 / 2)" using q tpos by (intro mult_left_mono) auto
      then have "2 * ?t' \<le> t" by linarith
      then have "(2 * ?t') * 10 ^ 12 \<le> t * 10 ^ 12" by (rule mult_right_mono) simp
      then have "?t' * 10 ^ 12 + ?t' * 10 ^ 12 \<le> t * 10 ^ 12" by (simp add: algebra_simps)
      moreover have one: "1 \<le> ?t' * 10 ^ 12" using ge by (simp add: field_simps)
      ultimately have "?t' * 10 ^ 12 + 1 \<le> t * 10 ^ 12" by linarith
      then have "\<lceil>?t' * 10 ^ 12\<rceil> + 1 \<le> \<lceil>t * 10 ^ 12\<rceil>"
        by (metis ceiling_add_one ceiling_mono)
      moreover have "0 < ?t' * 10 ^ 12" using one by linarith
      then have "0 < \<lceil>?t' * 10 ^ 12\<rceil>" by (simp only: zero_less_ceiling)
      ultimately have "nat \<lceil>?t' * 10 ^ 12\<rceil> < nat \<lceil>t * 10 ^ 12\<rceil>" by linarith
      then show ?thesis using lam 2 False by auto
    qed
  qed
qed

declare poisson_loop.simps [simp del]

text \<open>
  \<open>math.lgamma\<close> is only called at \<open>observed + 1\<close> with \<open>observed\<close> a positive integer,
  where the log-gamma function is the logarithm of a factorial.
\<close>

definition lgamma :: "int \<Rightarrow> real" where
  "lgamma n = ln (fact (nat (n - 1)))"

definition poisson_tail :: "int \<Rightarrow> real \<Rightarrow> real" where
  "poisson_tail observed lam =
     (if lam \<le> 0 then (if observed > 0 then 0 else 1)
      else if observed \<le> 0 then 1
      else
        (let term = exp (of_int observed * ln lam - lam - lgamma (observed + 1))
         in min 1 (poisson_loop lam (nat observed) term term)))"

text \<open>\<open>sum(flags)\<close> for a list of booleans.\<close>

definition sum_flags :: "bool list \<Rightarrow> int" where
  "sum_flags flags = sum_list (map (\<lambda>b. if b then 1 else 0) flags)"

text \<open>
  \<open>compute_pattern_stats\<close>. The literals \<open>0.0\<close> and \<open>1.0\<close> of the degenerate record are
  exact. In the other branch every arithmetic operation of the source is one operation of
  \<open>float_ops\<close>, in the source's order: \<open>(total_words - 1) * probability_suffix\<close> converts
  the \<open>int\<close> and multiplies, the product is multiplied by \<open>probability_prefix\<close>,
  \<open>observed_adjacent / expected_adjacent\<close> converts the \<open>int\<close> and divides, and
  \<open>probability * 100\<close> converts \<open>100\<close> and multiplies. Neither division divides by zero:
  \<open>total_words\<close> and \<open>expected_adjacent\<close> are tested first.
\<close>

definition compute_pattern_stats ::
  "float_ops \<Rightarrow> ustring \<Rightarrow> WordInfo list \<Rightarrow> ustring \<Rightarrow> ustring \<Rightarrow> PatternStats" where
  "compute_pattern_stats F sc words suffix_target prefix_target =
     (let total = int (length words)
      in if total = 0 then
           \<lparr> scope = sc, total_words = 0, suffix_count = 0, prefix_count = 0,
             expected_adjacent = 0, observed_adjacent = 0, suffix_percent = 0,
             prefix_percent = 0, ratio = Infinity, p_value = 1 \<rparr>
         else
           (let sflags = suffix_flags words suffix_target;
                pflags = prefix_flags words prefix_target;
                scount = sum_flags sflags;
                pcount = sum_flags pflags;
                probability_suffix = int_truediv F scount total;
                probability_prefix = int_truediv F pcount total;
                expected = fmul F (fmul F (float_of_int F (total - 1)) probability_suffix)
                             probability_prefix;
                observed = sum_list (map (\<lambda>idx. 1)
                             (filter (\<lambda>idx. sflags ! idx \<and> pflags ! (idx + 1))
                                [0..<nat (total - 1)]));
                r = (if expected \<noteq> 0
                     then Finite (fdiv F (float_of_int F observed) expected) else Infinity);
                p = poisson_tail observed expected
            in \<lparr> scope = sc, total_words = total, suffix_count = scount,
                 prefix_count = pcount, expected_adjacent = expected,
                 observed_adjacent = observed,
                 suffix_percent = fmul F probability_suffix (float_of_int F 100),
                 prefix_percent = fmul F probability_prefix (float_of_int F 100),
                 ratio = r, p_value = p \<rparr>))"

section \<open>Statistics script: resolving the targets\<close>

text \<open>The four \<open>ValueError\<close>s of \<open>resolve_targets\<close>, in the order the source raises them.\<close>

datatype value_error =
  WordRequired | WordTooShort | SplitIndexOutOfRange | EmptyFragment

definition resolve_targets ::
  "unicodedata \<Rightarrow> ustring option \<Rightarrow> ustring option \<Rightarrow> ustring option \<Rightarrow> int option
     \<Rightarrow> value_error + (ustring \<times> ustring)" where
  "resolve_targets U word suffix_target prefix_target split_index =
     (let normalized_word = normalize_for_match U (or_empty word);
          suffix = (if or_empty suffix_target \<noteq> []
                    then normalize_for_match U (or_empty suffix_target) else []);
          pref = (if or_empty prefix_target \<noteq> []
                  then normalize_for_match U (or_empty prefix_target) else [])
      in if suffix \<noteq> [] \<and> pref \<noteq> [] then Inr (suffix, pref)
         else if normalized_word = [] then Inl WordRequired
         else if length normalized_word < 2 then Inl WordTooShort
         else
           (let len = int (length normalized_word);
                split = (case split_index of
                           None \<Rightarrow>
                             Inr (max 1 (min (len - 1)
                                    (if len div 2 \<noteq> 0 then len div 2 else 1)))
                         | Some i \<Rightarrow>
                             if \<not> (0 < i \<and> i < len) then Inl SplitIndexOutOfRange else Inr i)
            in case split of
                 Inl e \<Rightarrow> Inl e
               | Inr split_idx \<Rightarrow>
                   (let resolved_suffix =
                          (if suffix \<noteq> [] then suffix else take (nat split_idx) normalized_word);
                        resolved_prefix =
                          (if pref \<noteq> [] then pref else drop (nat split_idx) normalized_word)
                    in if resolved_suffix = [] \<or> resolved_prefix = [] then Inl EmptyFragment
                       else Inr (resolved_suffix, resolved_prefix))))"

section \<open>The Unicode data of the Hebrew block\<close>

text \<open>
  A concrete database for evaluating the model: the characters U+0590 to U+05FF. None of
  them has a canonical decomposition or takes part in a canonical composition, so on
  strings of the block NFD and NFC are both the canonical reordering of the combining
  marks by combining class. Code points outside the block are treated as unassigned
  starters; the instance stands for Unicode on Hebrew-block strings only.
\<close>

definition hebrew_mark :: "codepoint \<Rightarrow> bool" where
  "hebrew_mark c \<longleftrightarrow>
     (0x591 \<le> c \<and> c \<le> 0x5BD) \<or> c = 0x5BF \<or> c = 0x5C1 \<or> c = 0x5C2 \<or>
     c = 0x5C4 \<or> c = 0x5C5 \<or> c = 0x5C7"

text \<open>The canonical combining class; \<open>0\<close> for every character that is not a mark.\<close>

definition hebrew_ccc :: "codepoint \<Rightarrow> nat" where
  "hebrew_ccc c =
     (if \<not> hebrew_mark c then 0
      else if 0x5B0 \<le> c \<and> c \<le> 0x5B9 then c - 0x5B0 + 10
      else if c = 0x5BA then 19
      else if 0x5BB \<le> c \<and> c \<le> 0x5BD then c - 0x5BB + 20
      else if c = 0x5BF then 23
      else if c = 0x5C1 then 24
      else if c = 0x5C2 then 25
      else if c = 0x5C7 then 18
      else if c = 0x59A \<or> c = 0x5AD then 222
      else if c = 0x5AE then 228
      else if c \<in> {0x591, 0x596, 0x59B, 0x5A2, 0x5A3, 0x5A4, 0x5A5, 0x5A6, 0x5A7, 0x5AA, 0x5C5}
        then 220
      else 230)"

text \<open>
  Canonical ordering: a mark moves left past the marks of its run that have a greater
  combining class, and never past a starter or a mark of the same class.
\<close>

fun insert_mark :: "codepoint \<Rightarrow> ustring \<Rightarrow> ustring" where
  "insert_mark c [] = [c]"
| "insert_mark c (x # xs) =
     (if hebrew_ccc x \<noteq> 0 \<and> hebrew_ccc x < hebrew_ccc c then x # insert_mark c xs
      else c # x # xs)"

fun canonical_order :: "ustring \<Rightarrow> ustring" where
  "canonical_order [] = []"
| "canonical_order (c # cs) =
     (if hebrew_ccc c = 0 then c # canonical_order cs
      else insert_mark c (canonical_order cs))"

fun canonically_ordered :: "ustring \<Rightarrow> bool" where
  "canonically_ordered [] = True"
| "canonically_ordered [x] = True"
| "canonically_ordered (x # y # ys) =
     (\<not> (hebrew_ccc y \<noteq> 0 \<and> hebrew_ccc y < hebrew_ccc x) \<and> canonically_ordered (y # ys))"

definition hebrew_category :: "codepoint \<Rightarrow> string" where
  "hebrew_category c =
     (if hebrew_mark c then ''Mn''
      else if c = 0x5BE then ''Pd''
      else if c \<in> {0x5C0, 0x5C3, 0x5C6, 0x5F3, 0x5F4} then ''Po''
      else if (0x5D0 \<le> c \<and> c \<le> 0x5EA) \<or> (0x5EF \<le> c \<and> c \<le> 0x5F2) then ''Lo''
      else ''Cn'')"

definition hebrew_unicodedata :: unicodedata where
  "hebrew_unicodedata =
     \<lparr> normalize = (\<lambda>form s. canonical_order s), category = hebrew_category \<rparr>"

section \<open>Binary64 arithmetic\<close>

text \<open>
  A concrete \<open>float_ops\<close> for evaluating the model: every operation is the exact result
  rounded to the nearest IEEE 754 double, ties to even, as CPython computes it. A double
  has a 53-bit significand, so a non-zero \<open>x\<close> is rounded to a multiple of \<open>2 ^ e\<close> with
  \<open>e = floor (log2 |x|) - 52\<close>. The instance covers the normal range of doubles; it has no
  overflow and no subnormal numbers.
\<close>

definition round_half_even :: "real \<Rightarrow> int" where
  "round_half_even m =
     (let f = \<lfloor>m\<rfloor>
      in if m - of_int f < 1 / 2 then f
         else if 1 / 2 < m - of_int f then f + 1
         else if even f then f else f + 1)"

definition pow2 :: "int \<Rightarrow> real" where
  "pow2 e = (if 0 \<le> e then 2 ^ nat e else 1 / 2 ^ nat (- e))"

definition binary64 :: "real \<Rightarrow> real" where
  "binary64 x =
     (if x = 0 then 0
      else let e = \<lfloor>log 2 \<bar>x\<bar>\<rfloor> - 52;
               m = round_half_even (\<bar>x\<bar> / pow2 e)
           in sgn x * of_int m * pow2 e)"

definition binary64_ops :: float_ops where
  "binary64_ops =
     \<lparr> float_of_int = (\<lambda>i. binary64 (of_int i)),
       int_truediv = (\<lambda>i j. binary64 (of_int i / of_int j)),
       fmul = (\<lambda>x y. binary64 (x * y)),
       fdiv = (\<lambda>x y. binary64 (x / y)) \<rparr>"

section \<open>An example corpus\<close>

text \<open>
  Five word nodes. The consonantal texts are the Hebrew words avishalom (written with a
  final mem), ve, achiv, no text at all, and avda; the pointed text of the first word
  carries a vowel point (holam) and a maqaf.
\<close>

definition example_api :: api where
  "example_api =
     \<lparr> word_nodes = [1, 2, 3, 4, 5],
       g_cons_utf8 = map_of
         [(1, [0x5D0, 0x5D1, 0x5D9, 0x5E9, 0x5DC, 0x5D5, 0x5DD]),
          (2, [0x5D5]),
          (3, [0x5D0, 0x5D7, 0x5D9, 0x5D5]),
          (5, [0x5D0, 0x5D1, 0x5D3, 0x5D4])],
       g_word_utf8 = map_of
         [(1, [0x5D0, 0x5D1, 0x5D9, 0x5E9, 0x5DC, 0x5D5, 0x5B9, 0x5DD, 0x5BE]),
          (2, [0x5D5]),
          (3, [0x5D0, 0x5D7, 0x5D9, 0x5D5]),
          (5, [0x5D0, 0x5D1, 0x5D3, 0x5D4])],
       sectionFromNode = (\<lambda>n. Some (ustr ''Genesis'', 1, int n)) \<rparr>"

definition example_words :: "WordInfo list" where
  "example_words = load_words hebrew_unicodedata example_api"

section \<open>Facts about the prefix-span matcher\<close>

lemma startswith_prefix: "startswith s p \<longleftrightarrow> prefix p s"
  unfolding startswith_def
  by (metis append_eq_conv_conj prefix_def take_is_prefix)

text \<open>
  What a successful run of the loop of \<open>second_span_nodes\<close> has consumed: \<open>k\<close> consecutive
  nodes from \<open>idx\<close> on, none with empty text, whose texts together start with
  \<open>remaining\<close>, while no shorter run does.
\<close>

lemma second_span_loop_sound:
  "second_span_loop U a idx remaining acc = Some ns \<Longrightarrow>
   \<exists>k. ns = acc @ take k (drop idx (word_nodes a)) \<and>
       (remaining \<noteq> [] \<longrightarrow> 0 < k \<and> idx + k \<le> length (word_nodes a)) \<and>
       prefix remaining (concat (map (cons_norm U a) (take k (drop idx (word_nodes a))))) \<and>
       (\<forall>m<k. \<not> prefix remaining (concat (map (cons_norm U a) (take m (drop idx (word_nodes a)))))) \<and>
       (\<forall>n\<in>set (take k (drop idx (word_nodes a))). cons_norm U a n \<noteq> [])"
proof (induction U a idx remaining acc arbitrary: ns rule: second_span_loop.induct)
  case (1 U a idx remaining acc)
  let ?ws = "word_nodes a"
  let ?nd = "?ws ! idx"
  let ?norm = "normalize_for_match U (or_empty (g_cons_utf8 a ?nd))"
  let ?texts = "\<lambda>k i. concat (map (cons_norm U a) (take k (drop i ?ws)))"
  show ?case
  proof (cases "idx < length ?ws \<and> remaining \<noteq> []")
    case False
    with "1.prems" have "remaining = []" "ns = acc"
      by (auto simp: second_span_loop.simps[of U a idx remaining acc] split: if_splits)
    then show ?thesis by (intro exI[of _ 0]) simp
  next
    case cond: True
    have cn: "cons_norm U a ?nd = ?norm" by (simp add: cons_norm_def)
    have dr: "drop idx ?ws = ?nd # drop (Suc idx) ?ws"
      using cond by (simp add: Cons_nth_drop_Suc)
    have unf: "second_span_loop U a idx remaining acc =
       (if ?norm = [] then None
        else if startswith ?norm remaining then Some (acc @ [?nd])
        else if startswith remaining ?norm then
          second_span_loop U a (idx + 1) (drop (length ?norm) remaining) (acc @ [?nd])
        else None)"
      using cond by (subst second_span_loop.simps) (simp add: Let_def)
    show ?thesis
    proof (cases "?norm = []")
      case True
      with unf "1.prems" show ?thesis by simp
    next
      case nonempty: False
      show ?thesis
      proof (cases "startswith ?norm remaining")
        case True
        with unf nonempty "1.prems" have ns: "ns = acc @ [?nd]" by simp
        have "prefix remaining ?norm" using True by (simp add: startswith_prefix)
        then show ?thesis using ns dr cond nonempty cn
          by (intro exI[of _ 1]) simp
      next
        case nosw: False
        show ?thesis
        proof (cases "startswith remaining ?norm")
          case False
          with unf nonempty nosw "1.prems" show ?thesis by simp
        next
          case True
          let ?rem' = "drop (length ?norm) remaining"
          have rec: "second_span_loop U a (idx + 1) ?rem' (acc @ [?nd]) = Some ns"
            using unf nonempty nosw True "1.prems" by simp
          have remeq: "remaining = ?norm @ ?rem'"
            using True by (metis append_take_drop_id startswith_def)
          have rem': "?rem' \<noteq> []"
            using remeq nosw by (auto simp: startswith_def)
          from "1.IH"[OF cond refl refl refl nonempty nosw True rec]
          obtain k where k: "ns = (acc @ [?nd]) @ take k (drop (idx + 1) ?ws)"
              "?rem' \<noteq> [] \<longrightarrow> 0 < k \<and> idx + 1 + k \<le> length ?ws"
              "prefix ?rem' (?texts k (idx + 1))"
              "\<forall>m<k. \<not> prefix ?rem' (?texts m (idx + 1))"
              "\<forall>n\<in>set (take k (drop (idx + 1) ?ws)). cons_norm U a n \<noteq> []"
            by blast
          have step: "\<And>m. ?texts (Suc m) idx = ?norm @ ?texts m (idx + 1)"
            using dr cn by simp
          have pre: "\<And>x. prefix remaining (?norm @ x) \<longleftrightarrow> prefix ?rem' x"
            using remeq by (metis same_prefix_prefix)
          have min: "\<forall>m<Suc k. \<not> prefix remaining (?texts m idx)"
          proof (intro allI impI)
            fix m assume m: "m < Suc k"
            show "\<not> prefix remaining (?texts m idx)"
            proof (cases m)
              case 0
              then show ?thesis using cond by simp
            next
              case (Suc m')
              then have "m' < k" using m by simp
              with k(4) have "\<not> prefix ?rem' (?texts m' (idx + 1))" by blast
              then show ?thesis unfolding Suc step pre .
            qed
          qed
          have p: "prefix remaining (?texts (Suc k) idx)"
            unfolding step pre by (rule k(3))
          have nsk: "ns = acc @ take (Suc k) (drop idx ?ws)"
            using k(1) dr by simp
          have ne: "\<forall>n\<in>set (take (Suc k) (drop idx ?ws)). cons_norm U a n \<noteq> []"
            using k(5) dr cn nonempty by simp
          have bound: "0 < Suc k \<and> idx + Suc k \<le> length ?ws"
            using k(2) rem' by simp
          show ?thesis
            using nsk bound p min ne by blast
        qed
      qed
    qed
  qed
qed

lemma second_span_nodes_sound:
  assumes "second_span_nodes U a start pref = Some ns"
  shows "\<exists>k. 0 < k \<and> start + k \<le> length (word_nodes a) \<and>
       ns = take k (drop start (word_nodes a)) \<and>
       prefix pref (concat (map (cons_norm U a) (take k (drop start (word_nodes a))))) \<and>
       (\<forall>m<k. \<not> prefix pref (concat (map (cons_norm U a) (take m (drop start (word_nodes a)))))) \<and>
       (\<forall>n\<in>set (take k (drop start (word_nodes a))). cons_norm U a n \<noteq> [])"
proof -
  from assms have ne: "pref \<noteq> []" and loop: "second_span_loop U a start pref [] = Some ns"
    by (auto simp: second_span_nodes_def split: if_splits)
  from second_span_loop_sound[OF loop] ne show ?thesis by auto
qed

text \<open>The same for the inner loop of \<open>_prefix_flags\<close>.\<close>

lemma prefix_loop_sound:
  "remaining \<noteq> [] \<Longrightarrow> fst (prefix_loop words idx remaining matched) = [] \<Longrightarrow>
   \<exists>k. 0 < k \<and> idx + k \<le> length words \<and>
       prefix remaining (concat (map text' (take k (drop idx words)))) \<and>
       (\<forall>m<k. \<not> prefix remaining (concat (map text' (take m (drop idx words))))) \<and>
       (\<forall>w\<in>set (take k (drop idx words)). text' w \<noteq> [])"
proof (induction words idx remaining matched rule: prefix_loop.induct)
  case (1 words idx remaining matched)
  let ?seg = "text' (words ! idx)"
  let ?texts = "\<lambda>k i. concat (map text' (take k (drop i words)))"
  show ?case
  proof (cases "idx < length words")
    case False
    with "1.prems" show ?thesis
      by (simp add: prefix_loop.simps[of words idx remaining matched])
  next
    case inb: True
    then have cond: "idx < length words \<and> remaining \<noteq> []" using "1.prems" by simp
    have dr: "drop idx words = words ! idx # drop (Suc idx) words"
      using inb by (simp add: Cons_nth_drop_Suc)
    have unf: "prefix_loop words idx remaining matched =
       (if ?seg = [] then (remaining, matched)
        else if startswith ?seg remaining then ([], True)
        else if startswith remaining ?seg then
          prefix_loop words (idx + 1) (drop (length ?seg) remaining) True
        else (remaining, matched))"
      using cond by (subst prefix_loop.simps) (simp add: Let_def)
    show ?thesis
    proof (cases "?seg = []")
      case True
      with unf "1.prems" show ?thesis by simp
    next
      case nonempty: False
      show ?thesis
      proof (cases "startswith ?seg remaining")
        case True
        have "prefix remaining ?seg" using True by (simp add: startswith_prefix)
        then show ?thesis using dr cond nonempty
          by (intro exI[of _ 1]) simp
      next
        case nosw: False
        show ?thesis
        proof (cases "startswith remaining ?seg")
          case False
          with unf nonempty nosw "1.prems" show ?thesis by simp
        next
          case True
          let ?rem' = "drop (length ?seg) remaining"
          have rec: "fst (prefix_loop words (idx + 1) ?rem' True) = []"
            using unf nonempty nosw True "1.prems" by simp
          have remeq: "remaining = ?seg @ ?rem'"
            using True by (metis append_take_drop_id startswith_def)
          have rem': "?rem' \<noteq> []"
            using remeq nosw by (auto simp: startswith_def)
          from "1.IH"[OF cond refl nonempty nosw True rem' rec]
          obtain k where k: "0 < k" "idx + 1 + k \<le> length words"
              "prefix ?rem' (?texts k (idx + 1))"
              "\<forall>m<k. \<not> prefix ?rem' (?texts m (idx + 1))"
              "\<forall>w\<in>set (take k (drop (idx + 1) words)). text' w \<noteq> []"
            by blast
          have step: "\<And>m. ?texts (Suc m) idx = ?seg @ ?texts m (idx + 1)"
            using dr by simp
          have pre: "\<And>x. prefix remaining (?seg @ x) \<longleftrightarrow> prefix ?rem' x"
            using remeq by (metis same_prefix_prefix)
          have min: "\<forall>m<Suc k. \<not> prefix remaining (?texts m idx)"
          proof (intro allI impI)
            fix m assume m: "m < Suc k"
            show "\<not> prefix remaining (?texts m idx)"
            proof (cases m)
              case 0
              then show ?thesis using cond by simp
            next
              case (Suc m')
              then have "m' < k" using m by simp
              with k(4) have "\<not> prefix ?rem' (?texts m' (idx + 1))" by blast
              then show ?thesis unfolding Suc step pre .
            qed
          qed
          have p: "prefix remaining (?texts (Suc k) idx)"
            unfolding step pre by (rule k(3))
          have ne: "\<forall>w\<in>set (take (Suc k) (drop idx words)). text' w \<noteq> []"
            using k(5) dr nonempty by simp
          have bound: "0 < Suc k \<and> idx + Suc k \<le> length words"
            using k(2) by simp
          show ?thesis
            using bound p min ne by blast
        qed
      qed
    qed
  qed
qed

text \<open>The \<open>for\<close> loop of \<open>_prefix_flags\<close> sets exactly the flags whose inner loop succeeds.\<close>

lemma prefix_flags_fold:
  "n \<le> length flags \<Longrightarrow>
   foldl (prefix_flags_step words p) flags [0..<n] =
     map (\<lambda>i. (fst (prefix_loop words i p False) = [] \<and> snd (prefix_loop words i p False)) \<or> flags ! i)
       [0..<n] @ drop n flags"
proof (induction n)
  case 0
  then show ?case by simp
next
  case (Suc n)
  define g where "g = (\<lambda>i. (fst (prefix_loop words i p False) = [] \<and>
      snd (prefix_loop words i p False)) \<or> flags ! i)"
  define F where "F = map g [0..<n] @ drop n flags"
  from Suc have n: "n < length flags" by simp
  have IH: "foldl (prefix_flags_step words p) flags [0..<n] = F" using Suc by (simp add: F_def g_def)
  have dr: "drop n flags = flags ! n # drop (Suc n) flags"
    using n by (simp add: Cons_nth_drop_Suc)
  have F: "F = map g [0..<n] @ flags ! n # drop (Suc n) flags"
    by (simp add: F_def dr)
  have upd: "F[n := True] = map g [0..<n] @ True # drop (Suc n) flags"
    unfolding F by (simp add: list_update_append)
  have step: "prefix_flags_step words p F n = map g [0..<n] @ g n # drop (Suc n) flags"
  proof (cases "fst (prefix_loop words n p False) = [] \<and> snd (prefix_loop words n p False)")
    case True
    then have "prefix_flags_step words p F n = F[n := True]"
      by (simp add: prefix_flags_step_def Let_def)
    moreover have "g n" using True by (simp add: g_def)
    ultimately show ?thesis using upd by simp
  next
    case False
    then have "prefix_flags_step words p F n = F"
      by (auto simp add: prefix_flags_step_def Let_def)
    moreover have "g n = flags ! n" using False by (auto simp add: g_def)
    ultimately show ?thesis using F by simp
  qed
  have "foldl (prefix_flags_step words p) flags [0..<Suc n] = prefix_flags_step words p F n"
    by (simp add: IH)
  then show ?case unfolding step by (simp add: g_def)
qed

lemma prefix_flags_char:
  "prefix_flags words p =
     map (\<lambda>i. p \<noteq> [] \<and> fst (prefix_loop words i p False) = [] \<and> snd (prefix_loop words i p False))
       [0..<length words]"
proof (cases "p = []")
  case True
  then show ?thesis by (simp add: prefix_flags_def map_replicate_const)
next
  case False
  have "prefix_flags words p =
      foldl (prefix_flags_step words p) (replicate (length words) False) [0..<length words]"
    using False by (simp add: prefix_flags_def Let_def)
  also have "\<dots> = map (\<lambda>i. (fst (prefix_loop words i p False) = [] \<and>
        snd (prefix_loop words i p False)) \<or> replicate (length words) False ! i) [0..<length words]"
    by (subst prefix_flags_fold) simp_all
  also have "\<dots> = map (\<lambda>i. p \<noteq> [] \<and> fst (prefix_loop words i p False) = [] \<and>
        snd (prefix_loop words i p False)) [0..<length words]"
    using False by (intro map_cong) auto
  finally show ?thesis .
qed

lemma prefix_flag_sound:
  assumes "start < length words" and "prefix_flags words pref ! start"
  shows "\<exists>k. 0 < k \<and> start + k \<le> length words \<and>
       prefix pref (concat (map text' (take k (drop start words)))) \<and>
       (\<forall>m<k. \<not> prefix pref (concat (map text' (take m (drop start words))))) \<and>
       (\<forall>w\<in>set (take k (drop start words)). text' w \<noteq> [])"
proof -
  from assms have "pref \<noteq> []" "fst (prefix_loop words start pref False) = []"
    by (simp_all add: prefix_flags_char)
  then show ?thesis by (rule prefix_loop_sound)
qed

text \<open>A run of non-empty texts cannot reach past an empty one before the target is covered.\<close>

lemma no_span_through_gap:
  assumes p: "prefix p (concat (map f (take k xs)))"
    and ne: "\<forall>x\<in>set (take k xs). f x \<noteq> []"
    and i: "i < length xs" and gap: "f (xs ! i) = []"
    and short: "length (concat (map f (take i xs))) < length p"
  shows False
proof (cases "k \<le> i")
  case True
  then have "take k xs = take k (take i xs)" by (simp add: min_def)
  then have "prefix (take k xs) (take i xs)" by (metis take_is_prefix)
  then obtain r where "take i xs = take k xs @ r" by (auto simp: prefix_def)
  then have "length (concat (map f (take k xs))) \<le> length (concat (map f (take i xs)))"
    by simp
  moreover have "length p \<le> length (concat (map f (take k xs)))"
    using p by (rule prefix_length_le)
  ultimately show False using short by simp
next
  case False
  then have "xs ! i \<in> set (take k xs)"
    using i by (metis in_set_conv_nth length_take min_less_iff_conj not_le nth_take)
  with ne gap show False by blast
qed

section \<open>Evaluating the example corpus\<close>

lemmas hebrew_eval = normalize_for_match_def hebrew_unicodedata_def hebrew_ccc_def hebrew_mark_def
      hebrew_category_def translate_def translate_char_def FINAL_FORM_TRANSLATION_def

lemma example_cons_norm:
  "cons_norm hebrew_unicodedata example_api 1 = [0x5D0, 0x5D1, 0x5D9, 0x5E9, 0x5DC, 0x5D5, 0x5DE]"
  "cons_norm hebrew_unicodedata example_api 2 = [0x5D5]"
  "cons_norm hebrew_unicodedata example_api 3 = [0x5D0, 0x5D7, 0x5D9, 0x5D5]"
  "cons_norm hebrew_unicodedata example_api 4 = []"
  "cons_norm hebrew_unicodedata example_api 5 = [0x5D0, 0x5D1, 0x5D3, 0x5D4]"
  by (simp_all add: cons_norm_def example_api_def or_empty_def hebrew_eval)

lemma example_nodes: "word_nodes example_api = [1, 2, 3, 4, 5]"
  by (simp add: example_api_def)

lemma second_span_loop_unfold:
  "second_span_loop U a idx remaining acc =
     (if idx < length (word_nodes a) \<and> remaining \<noteq> [] then
        (if cons_norm U a (word_nodes a ! idx) = [] then None
         else if startswith (cons_norm U a (word_nodes a ! idx)) remaining
           then Some (acc @ [word_nodes a ! idx])
         else if startswith remaining (cons_norm U a (word_nodes a ! idx)) then
           second_span_loop U a (idx + 1)
             (drop (length (cons_norm U a (word_nodes a ! idx))) remaining)
             (acc @ [word_nodes a ! idx])
         else None)
      else if remaining = [] then Some acc else None)"
  by (subst second_span_loop.simps) (simp add: Let_def cons_norm_def)

lemma example_span:
  "second_span_nodes hebrew_unicodedata example_api 1 [0x5D5, 0x5D0, 0x5D7, 0x5D9] = Some [2, 3]"
  by (simp add: second_span_nodes_def second_span_loop_unfold example_nodes example_cons_norm
      startswith_def)

lemma example_words_eq:
  "example_words =
     [\<lparr>text' = [0x5D0, 0x5D1, 0x5D9, 0x5E9, 0x5DC, 0x5D5, 0x5DE], book = ustr ''Genesis''\<rparr>,
      \<lparr>text' = [0x5D5], book = ustr ''Genesis''\<rparr>,
      \<lparr>text' = [0x5D0, 0x5D7, 0x5D9, 0x5D5], book = ustr ''Genesis''\<rparr>,
      \<lparr>text' = [], book = ustr ''Genesis''\<rparr>,
      \<lparr>text' = [0x5D0, 0x5D1, 0x5D3, 0x5D4], book = ustr ''Genesis''\<rparr>]"
  by (simp add: example_words_def load_words_def example_api_def strip_diacritics_def maqaf_def
      or_empty_def hebrew_eval)

lemma example_flags:
  "prefix_flags example_words [0x5D5, 0x5D0, 0x5D7, 0x5D9] = [False, True, False, False, False]"
  by (simp add: prefix_flags_char example_words_eq prefix_loop.simps startswith_def upt_rec)

section \<open>The degenerate statistics record\<close>

text \<open>
  C7. \<open>compute_pattern_stats\<close> on an empty word scope raises nothing and returns, for
  every scope label and every pair of targets, the record with total words 0, suffix
  count 0, prefix count 0, expected 0.0, observed 0, the two percentages 0.0, the ratio
  \<open>math.inf\<close> and the p-value 1.0.
\<close>

theorem compute_pattern_stats_empty_scope:
  "compute_pattern_stats F sc [] suffix_target prefix_target =
     \<lparr> scope = sc, total_words = 0, suffix_count = 0, prefix_count = 0,
       expected_adjacent = 0, observed_adjacent = 0, suffix_percent = 0,
       prefix_percent = 0, ratio = Infinity, p_value = 1 \<rparr>"
  by (simp add: compute_pattern_stats_def)

section \<open>The empty prefix target\<close>

text \<open>
  C1 as stated fails. With the empty prefix target \<open>second_span_nodes\<close> returns \<open>None\<close>
  (its first statement is \<open>if not prefix: return None\<close>) and \<open>_prefix_flags\<close> returns the
  list of \<open>False\<close> it has just allocated: on the example corpus no zero-token span is
  returned and no flag is true.
\<close>

theorem empty_prefix_target_counterexample:
  "second_span_nodes hebrew_unicodedata example_api 1 [] = None \<and>
   prefix_flags example_words [] = [False, False, False, False, False]"
  by (simp add: second_span_nodes_def prefix_flags_def example_words_eq)

text \<open>
  C1, amended. For every corpus and every start position, with the empty prefix target
  the matcher of the search script returns no span, and the prefix flag vector of the
  statistics script is constant false, of the length of the word list.
\<close>

theorem empty_prefix_target_never_matches:
  "second_span_nodes U a start_index [] = None \<and>
   prefix_flags words [] = replicate (length words) False"
  by (simp add: second_span_nodes_def prefix_flags_def)

section \<open>Soundness and minimality of the prefix-span matcher\<close>

text \<open>
  C2. Whenever \<open>second_span_nodes\<close> returns a span, the span is not empty, it is the run of
  consecutive word nodes that begins at the start index, the prefix target is a prefix of
  the concatenation of the normalized texts of its nodes, and the target is not a prefix of
  the concatenated texts of any strictly shorter initial part of the span. Hence, when no
  run of consecutive tokens from the start index has the target as a prefix of its
  concatenated text, no span is returned. The statistics script agrees: a prefix flag is
  true only at a start position from which some shortest non-empty run of word texts
  begins with the target.
\<close>

theorem prefix_span_sound_and_minimal:
  "(\<forall>ns. second_span_nodes U a start pref = Some ns \<longrightarrow>
      ns \<noteq> [] \<and> ns = take (length ns) (drop start (word_nodes a)) \<and>
      prefix pref (concat (map (cons_norm U a) ns)) \<and>
      (\<forall>m<length ns. \<not> prefix pref (concat (map (cons_norm U a) (take m ns))))) \<and>
   ((\<forall>k. \<not> prefix pref (concat (map (cons_norm U a) (take k (drop start (word_nodes a))))))
      \<longrightarrow> second_span_nodes U a start pref = None) \<and>
   (start < length words \<and> prefix_flags words pref ! start \<longrightarrow>
      (\<exists>k. 0 < k \<and> prefix pref (concat (map text' (take k (drop start words)))) \<and>
        (\<forall>m<k. \<not> prefix pref (concat (map text' (take m (drop start words)))))))"
proof (intro conjI allI impI)
  fix ns assume some: "second_span_nodes U a start pref = Some ns"
  from second_span_nodes_sound[OF some] obtain k where k: "0 < k"
      "start + k \<le> length (word_nodes a)" "ns = take k (drop start (word_nodes a))"
      "prefix pref (concat (map (cons_norm U a) (take k (drop start (word_nodes a)))))"
      "\<forall>m<k. \<not> prefix pref (concat (map (cons_norm U a) (take m (drop start (word_nodes a)))))"
    by blast
  have len: "length ns = k" using k(2,3) by simp
  show "ns \<noteq> []" using len k(1) by auto
  show "ns = take (length ns) (drop start (word_nodes a))" using len k(3) by simp
  show "prefix pref (concat (map (cons_norm U a) ns))" using k(3,4) by simp
  fix m assume "m < length ns"
  then have m: "m < k" using len by simp
  then have "take m ns = take m (drop start (word_nodes a))" using k(3) by (simp add: min_def)
  then show "\<not> prefix pref (concat (map (cons_norm U a) (take m ns)))" using k(5) m by simp
next
  assume none: "\<forall>k. \<not> prefix pref (concat (map (cons_norm U a) (take k (drop start (word_nodes a)))))"
  show "second_span_nodes U a start pref = None"
  proof (cases "second_span_nodes U a start pref")
    case (Some ns)
    from second_span_nodes_sound[OF Some] none show ?thesis by blast
  qed simp
next
  assume "start < length words \<and> prefix_flags words pref ! start"
  then have "start < length words" "prefix_flags words pref ! start" by simp_all
  from prefix_flag_sound[OF this]
  show "\<exists>k. 0 < k \<and> prefix pref (concat (map text' (take k (drop start words)))) \<and>
        (\<forall>m<k. \<not> prefix pref (concat (map text' (take m (drop start words)))))"
    by blast
qed

theorem prefix_span_sound_and_minimal_witness:
  "second_span_nodes hebrew_unicodedata example_api 1 [0x5D5, 0x5D0, 0x5D7, 0x5D9] = Some [2, 3] \<and>
   [2, 3] = take (length [2, 3 :: nat]) (drop 1 (word_nodes example_api)) \<and>
   prefix [0x5D5, 0x5D0, 0x5D7, 0x5D9]
     (concat (map (cons_norm hebrew_unicodedata example_api) [2, 3])) \<and>
   \<not> prefix [0x5D5, 0x5D0, 0x5D7, 0x5D9]
     (concat (map (cons_norm hebrew_unicodedata example_api) (take 1 [2, 3]))) \<and>
   second_span_nodes hebrew_unicodedata example_api 3 [0x5D5] = None \<and>
   1 < length example_words \<and> prefix_flags example_words [0x5D5, 0x5D0, 0x5D7, 0x5D9] ! 1 \<and>
   (\<exists>k. 0 < k \<and> prefix [0x5D5, 0x5D0, 0x5D7, 0x5D9]
      (concat (map text' (take k (drop 1 example_words)))))"
proof -
  let ?p = "[0x5D5, 0x5D0, 0x5D7, 0x5D9] :: ustring"
  note main = prefix_span_sound_and_minimal[of hebrew_unicodedata example_api 1 ?p example_words]
  note other = prefix_span_sound_and_minimal[of hebrew_unicodedata example_api 3 "[0x5D5]"
      example_words]
  have span: "second_span_nodes hebrew_unicodedata example_api 1 ?p = Some [2, 3]"
    by (rule example_span)
  from main span have a:
    "[2, 3] = take (length [2, 3 :: nat]) (drop 1 (word_nodes example_api)) \<and>
     prefix ?p (concat (map (cons_norm hebrew_unicodedata example_api) [2, 3])) \<and>
     (\<forall>m<length [2, 3 :: nat]. \<not> prefix ?p
       (concat (map (cons_norm hebrew_unicodedata example_api) (take m [2, 3]))))"
    by blast
  have "(1::nat) < length [2, 3 :: nat]" by simp
  with a have a1: "\<not> prefix ?p
       (concat (map (cons_norm hebrew_unicodedata example_api) (take 1 [2, 3])))"
    by blast
  have none: "\<forall>k. \<not> prefix [0x5D5]
     (concat (map (cons_norm hebrew_unicodedata example_api) (take k (drop 3 (word_nodes example_api)))))"
    by (simp add: example_nodes example_cons_norm take_Cons split: nat.split)
  from other none have b: "second_span_nodes hebrew_unicodedata example_api 3 [0x5D5] = None"
    by blast
  have len: "1 < length example_words" by (simp add: example_words_eq)
  have flag: "prefix_flags example_words ?p ! 1" by (simp add: example_flags)
  from main len flag have c: "\<exists>k. 0 < k \<and> prefix ?p
      (concat (map text' (take k (drop 1 example_words))))"
    by blast
  from span a a1 b len flag c show ?thesis by blast
qed

section \<open>Empty tokens abort the match\<close>

text \<open>
  C8. Let the token at index \<open>j\<close>, at or after the start index, have empty normalized
  text, and let the texts of the tokens from the start index up to \<open>j\<close> (excluded) be
  together shorter than the prefix target, so that the target is not yet consumed when the
  matcher comes to \<open>j\<close>. Then \<open>second_span_nodes\<close> returns no span and the prefix flag at
  the start position is false, whatever the tokens after \<open>j\<close> are: the empty token is
  never skipped.
\<close>

theorem empty_token_aborts_match:
  assumes "start \<le> j"
  shows "(j < length (word_nodes a) \<and> cons_norm U a (word_nodes a ! j) = [] \<and>
          length (concat (map (cons_norm U a) (take (j - start) (drop start (word_nodes a)))))
            < length pref
          \<longrightarrow> second_span_nodes U a start pref = None) \<and>
         (j < length words \<and> text' (words ! j) = [] \<and>
          length (concat (map text' (take (j - start) (drop start words)))) < length pref
          \<longrightarrow> \<not> prefix_flags words pref ! start)"
proof (intro conjI impI)
  assume h: "j < length (word_nodes a) \<and> cons_norm U a (word_nodes a ! j) = [] \<and>
          length (concat (map (cons_norm U a) (take (j - start) (drop start (word_nodes a)))))
            < length pref"
  show "second_span_nodes U a start pref = None"
  proof (cases "second_span_nodes U a start pref")
    case (Some ns)
    from second_span_nodes_sound[OF Some] obtain k where
      k: "prefix pref (concat (map (cons_norm U a) (take k (drop start (word_nodes a)))))"
         "\<forall>n\<in>set (take k (drop start (word_nodes a))). cons_norm U a n \<noteq> []"
      by blast
    have "j - start < length (drop start (word_nodes a))" using h assms by auto
    moreover have "cons_norm U a (drop start (word_nodes a) ! (j - start)) = []"
      using h assms by simp
    ultimately have False using no_span_through_gap[OF k] h by blast
    then show ?thesis ..
  qed simp
next
  assume h: "j < length words \<and> text' (words ! j) = [] \<and>
          length (concat (map text' (take (j - start) (drop start words)))) < length pref"
  show "\<not> prefix_flags words pref ! start"
  proof
    assume flag: "prefix_flags words pref ! start"
    have "start < length words" using h assms by simp
    from prefix_flag_sound[OF this flag] obtain k where
      k: "prefix pref (concat (map text' (take k (drop start words))))"
         "\<forall>w\<in>set (take k (drop start words)). text' w \<noteq> []"
      by blast
    have "j - start < length (drop start words)" using h assms by auto
    moreover have "text' (drop start words ! (j - start)) = []" using h assms by simp
    ultimately show False using no_span_through_gap[OF k] h by blast
  qed
qed

theorem empty_token_aborts_match_witness:
  "(2::nat) \<le> 3 \<and> 3 < length (word_nodes example_api) \<and>
   cons_norm hebrew_unicodedata example_api (word_nodes example_api ! 3) = [] \<and>
   length (concat (map (cons_norm hebrew_unicodedata example_api)
     (take (3 - 2) (drop 2 (word_nodes example_api)))))
     < length [0x5D0, 0x5D7, 0x5D9, 0x5D5, 0x5D0, 0x5D1, 0x5D3, 0x5D4 :: nat] \<and>
   second_span_nodes hebrew_unicodedata example_api 2
     [0x5D0, 0x5D7, 0x5D9, 0x5D5, 0x5D0, 0x5D1, 0x5D3, 0x5D4] = None \<and>
   3 < length example_words \<and> text' (example_words ! 3) = [] \<and>
   length (concat (map text' (take (3 - 2) (drop 2 example_words))))
     < length [0x5D0, 0x5D7, 0x5D9, 0x5D5, 0x5D0, 0x5D1, 0x5D3, 0x5D4 :: nat] \<and>
   \<not> prefix_flags example_words [0x5D0, 0x5D7, 0x5D9, 0x5D5, 0x5D0, 0x5D1, 0x5D3, 0x5D4] ! 2"
proof -
  have le: "(2::nat) \<le> 3" by simp
  show ?thesis
    using empty_token_aborts_match[OF le, of example_api hebrew_unicodedata
        "[0x5D0, 0x5D7, 0x5D9, 0x5D5, 0x5D0, 0x5D1, 0x5D3, 0x5D4]" example_words]
    by (simp add: example_nodes example_cons_norm example_words_eq)
qed

section \<open>The corpus scanner\<close>

lemma scan_step_append:
  "scan_step U a st pt acc p = acc @ scan_step U a st pt [] p"
  by (simp add: scan_step_def Let_def split: option.split list.split)

lemma scan_fold:
  "foldl (scan_step U a st pt) acc ps = acc @ concat (map (scan_step U a st pt []) ps)"
proof (induction ps arbitrary: acc)
  case Nil
  then show ?case by simp
next
  case (Cons p ps)
  have "foldl (scan_step U a st pt) acc (p # ps) =
      foldl (scan_step U a st pt) (scan_step U a st pt acc p) ps" by simp
  also have "\<dots> = scan_step U a st pt acc p @ concat (map (scan_step U a st pt []) ps)"
    by (rule Cons.IH)
  also have "\<dots> = acc @ scan_step U a st pt [] p @ concat (map (scan_step U a st pt []) ps)"
    by (subst scan_step_append) simp
  finally show ?case by simp
qed

lemma enumerate_butlast:
  "enumerate 0 (butlast ws) = map (\<lambda>i. (i, ws ! i)) [0..<length ws - 1]"
  by (rule nth_equalityI) (simp_all add: nth_enumerate_eq nth_butlast)

lemma scan_step_spans:
  "map (\<lambda>m. (nodes (first m), nodes (second m))) (scan_step U a st pt [] (i, nd)) =
     (if (st = [] \<or> endswith (cons_norm U a nd) st) \<and> second_span_nodes U a (i + 1) pt \<noteq> None
      then [([nd], the (second_span_nodes U a (i + 1) pt))] else [])"
proof (cases "second_span_nodes U a (i + 1) pt")
  case None
  then show ?thesis by (simp add: scan_step_def Let_def)
next
  case (Some ns)
  from second_span_nodes_sound[OF Some] have "ns \<noteq> []" by auto
  then obtain n ns' where ns: "ns = n # ns'" by (cases ns) auto
  show ?thesis
    using Some ns by (simp add: scan_step_def Let_def build_span_def cons_norm_def)
qed

text \<open>
  C4. For a corpus of \<open>N\<close> word nodes \<open>collect_matches\<close> goes through the indices
  \<open>0..N-2\<close> in increasing order and emits one match for exactly each index \<open>i\<close> whose
  normalized text ends with the suffix target (every index when the suffix target is empty)
  and for which \<open>second_span_nodes\<close> returns a span from \<open>i + 1\<close>. The first span of that
  match is the single node \<open>i\<close> and its second span is the span the matcher returned. The
  last index \<open>N-1\<close> is not visited, so the last token never begins a match.
\<close>

theorem collect_matches_scans_each_index_once:
  "map (\<lambda>m. (nodes (first m), nodes (second m))) (collect_matches_for U a fs sp) =
     map (\<lambda>i. ([word_nodes a ! i],
                the (second_span_nodes U a (i + 1) (normalize_for_match U sp))))
       (filter (\<lambda>i. (normalize_for_match U fs = [] \<or>
                      endswith (cons_norm U a (word_nodes a ! i)) (normalize_for_match U fs)) \<and>
                     second_span_nodes U a (i + 1) (normalize_for_match U sp) \<noteq> None)
          [0..<length (word_nodes a) - 1])"
proof -
  let ?st = "normalize_for_match U fs" and ?pt = "normalize_for_match U sp"
  let ?proj = "\<lambda>m. (nodes (first m), nodes (second m))"
  let ?q = "\<lambda>i. (?st = [] \<or> endswith (cons_norm U a (word_nodes a ! i)) ?st) \<and>
                 second_span_nodes U a (i + 1) ?pt \<noteq> None"
  let ?f = "\<lambda>i. ([word_nodes a ! i], the (second_span_nodes U a (i + 1) ?pt))"
  have gen: "concat (map (\<lambda>i. map ?proj (scan_step U a ?st ?pt [] (i, word_nodes a ! i))) is) =
      map ?f (filter ?q is)" for "is"
    by (induction "is") (simp_all add: scan_step_spans)
  have "collect_matches_for U a fs sp =
      concat (map (scan_step U a ?st ?pt []) (map (\<lambda>i. (i, word_nodes a ! i))
        [0..<length (word_nodes a) - 1]))"
    by (simp add: collect_matches_for_def Let_def scan_fold enumerate_butlast)
  then have "map ?proj (collect_matches_for U a fs sp) =
      concat (map (\<lambda>i. map ?proj (scan_step U a ?st ?pt [] (i, word_nodes a ! i)))
        [0..<length (word_nodes a) - 1])"
    by (simp add: map_concat comp_def)
  then show ?thesis using gen by simp
qed

theorem collect_matches_scans_each_index_once_witness:
  "map (\<lambda>m. (nodes (first m), nodes (second m)))
     (collect_matches_for hebrew_unicodedata example_api
        [0x5DC, 0x5D5, 0x5DD] [0x5D5, 0x5D0, 0x5D7, 0x5D9]) = [([1], [2, 3])]"
proof -
  have st: "normalize_for_match hebrew_unicodedata [0x5DC, 0x5D5, 0x5DD] = [0x5DC, 0x5D5, 0x5DE]"
    by (simp add: hebrew_eval)
  have pt: "normalize_for_match hebrew_unicodedata [0x5D5, 0x5D0, 0x5D7, 0x5D9] =
      [0x5D5, 0x5D0, 0x5D7, 0x5D9]"
    by (simp add: hebrew_eval)
  have idx: "[0..<length (word_nodes example_api) - 1] = [0, 1, 2, 3]"
    by (simp add: example_nodes upt_rec)
  have c1: "cons_norm hebrew_unicodedata example_api (Suc 0) =
      [0x5D0, 0x5D1, 0x5D9, 0x5E9, 0x5DC, 0x5D5, 0x5DE]"
    using example_cons_norm(1) by simp
  have m1: "second_span_nodes hebrew_unicodedata example_api (Suc 0)
      [0x5D5, 0x5D0, 0x5D7, 0x5D9] = Some [2, 3]"
    using example_span by simp
  show ?thesis
    unfolding collect_matches_scans_each_index_once[of hebrew_unicodedata example_api
        "[0x5DC, 0x5D5, 0x5DD]" "[0x5D5, 0x5D0, 0x5D7, 0x5D9]"] st pt idx
    by (simp add: example_nodes example_cons_norm c1 m1 endswith_def)
qed

section \<open>Explicit targets\<close>

text \<open>
  C10. When an explicit suffix target and an explicit prefix target are both supplied and
  both normalize to non-empty strings, \<open>resolve_targets\<close> returns that normalized pair for
  every word (also a missing or empty one) and every split index (also one out of range):
  no \<open>ValueError\<close> is raised.
\<close>

theorem resolve_targets_explicit_pair:
  assumes "normalize_for_match U s \<noteq> []" and "normalize_for_match U p \<noteq> []"
  shows "resolve_targets U word (Some s) (Some p) split_index =
           Inr (normalize_for_match U s, normalize_for_match U p)"
proof -
  have "s \<noteq> []" "p \<noteq> []" using assms by (auto simp: normalize_for_match_def)
  then show ?thesis using assms by (simp add: resolve_targets_def or_empty_def)
qed

theorem resolve_targets_explicit_pair_witness:
  "normalize_for_match hebrew_unicodedata [0x5E9, 0x5DC] \<noteq> [] \<and>
   normalize_for_match hebrew_unicodedata [0x5D5, 0x5B9, 0x5DD] \<noteq> [] \<and>
   resolve_targets hebrew_unicodedata None (Some [0x5E9, 0x5DC]) (Some [0x5D5, 0x5B9, 0x5DD])
     (Some 99) = Inr ([0x5E9, 0x5DC], [0x5D5, 0x5DE])"
proof -
  have s: "normalize_for_match hebrew_unicodedata [0x5E9, 0x5DC] = [0x5E9, 0x5DC]"
    by (simp add: hebrew_eval)
  have p: "normalize_for_match hebrew_unicodedata [0x5D5, 0x5B9, 0x5DD] = [0x5D5, 0x5DE]"
    by (simp add: hebrew_eval)
  show ?thesis
    using resolve_targets_explicit_pair[of hebrew_unicodedata "[0x5E9, 0x5DC]"
        "[0x5D5, 0x5B9, 0x5DD]" None "Some 99"]
    by (simp add: s p)
qed

section \<open>The statistics record of a non-empty scope\<close>

lemma sum_flags_card:
  "sum_flags flags = int (card {i. i < length flags \<and> flags ! i})"
proof -
  have "sum_flags flags = int (length (filter (\<lambda>b. b) flags))"
    unfolding sum_flags_def by (induction flags) simp_all
  then show ?thesis by (simp add: length_filter_conv_card)
qed

lemma length_suffix_flags: "length (suffix_flags words s) = length words"
  by (simp add: suffix_flags_def)

lemma length_prefix_flags: "length (prefix_flags words p) = length words"
  by (simp add: prefix_flags_char)

lemma count_ones_card:
  "sum_list (map (\<lambda>idx. 1) (filter Q [0..<n])) = int (card {i. i < n \<and> Q i})"
proof -
  have "sum_list (map (\<lambda>idx. 1::int) (filter Q [0..<n])) = int (length (filter Q [0..<n]))"
    by (induction "filter Q [0..<n]" arbitrary: n) (simp_all add: sum_list_triv)
  also have "length (filter Q [0..<n]) = card ({i. Q i} \<inter> set [0..<n])"
    by (rule distinct_length_filter) simp
  also have "{i. Q i} \<inter> set [0..<n] = {i. i < n \<and> Q i}" by auto
  finally show ?thesis .
qed

lemma example_suffix_flags:
  "suffix_flags example_words [0x5DC, 0x5D5, 0x5DE] = [True, False, False, False, False]"
  by (simp add: suffix_flags_def example_words_eq endswith_def)

text \<open>Binary64 rounding keeps the sign, and its value is found from the binade of \<open>x\<close>.\<close>

lemma pow2_pos: "0 < pow2 e"
  by (simp add: pow2_def)

lemma pow2_powr: "pow2 e = 2 powr of_int e"
proof (cases "0 \<le> e")
  case True
  then have "2 powr real_of_int e = 2 powr real (nat e)" by simp
  also have "\<dots> = 2 ^ nat e" by (subst powr_realpow) simp_all
  finally show ?thesis using True by (simp add: pow2_def)
next
  case False
  then have "2 powr real_of_int e = 2 powr (- real (nat (- e)))" by simp
  also have "\<dots> = 1 / 2 powr real (nat (- e))" by (simp add: powr_minus divide_inverse)
  also have "\<dots> = 1 / 2 ^ nat (- e)" by (subst powr_realpow) simp_all
  finally show ?thesis using False by (simp add: pow2_def)
qed

lemma round_half_even_nonneg: "0 \<le> m \<Longrightarrow> 0 \<le> round_half_even m"
  by (auto simp: round_half_even_def Let_def)

lemma binary64_nonneg: "0 \<le> x \<Longrightarrow> 0 \<le> binary64 x"
  using pow2_pos[of "\<lfloor>log 2 \<bar>x\<bar>\<rfloor> - 52"]
  by (auto simp: binary64_def Let_def sgn_if less_imp_le
      intro!: mult_nonneg_nonneg round_half_even_nonneg divide_nonneg_nonneg)

lemma binary64_eval:
  assumes "0 < x" and "pow2 k \<le> x" and "x < pow2 (k + 1)"
  shows "binary64 x = of_int (round_half_even (x / pow2 (k - 52))) * pow2 (k - 52)"
proof -
  have "\<lfloor>log 2 x\<rfloor> = k"
    using assms by (subst floor_log_eq_powr_iff) (simp_all add: pow2_powr add.commute)
  then show ?thesis using assms(1) by (simp add: binary64_def Let_def)
qed

text \<open>
  C3. For a non-empty word scope of size \<open>N\<close> and every pair of targets, the record
  returned by \<open>compute_pattern_stats\<close> has \<open>suffix_count\<close> and \<open>prefix_count\<close> equal to
  the numbers of true suffix flags and true prefix flags, \<open>expected_adjacent\<close> equal to
  \<open>(N - 1) * (suffix_count / N) * (prefix_count / N)\<close> computed with Python's float
  operations in that order, \<open>observed_adjacent\<close> equal to the number of indices \<open>i\<close> in
  \<open>0..N-2\<close> with the suffix flag at \<open>i\<close> and the prefix flag at \<open>i + 1\<close> both true, and
  \<open>ratio\<close> equal to the float quotient \<open>observed_adjacent / expected_adjacent\<close> when
  \<open>expected_adjacent\<close> is positive and to \<open>math.inf\<close> otherwise. The source tests
  \<open>expected_adjacent\<close> for being non-zero; it is never negative, because conversion,
  division and multiplication of floats return no negative result on operands that are not
  negative. That is the only property of the float operations the statement needs.
\<close>

theorem compute_pattern_stats_formulas:
  assumes "words \<noteq> []"
    and conv: "\<forall>i. 0 \<le> i \<longrightarrow> 0 \<le> float_of_int F i"
    and quot: "\<forall>i j. 0 \<le> i \<and> 0 < j \<longrightarrow> 0 \<le> int_truediv F i j"
    and prod: "\<forall>x y. 0 \<le> x \<and> 0 \<le> y \<longrightarrow> 0 \<le> fmul F x y"
  shows "let st = compute_pattern_stats F sc words suffix_target prefix_target;
             N = length words
         in total_words st = int N \<and>
            suffix_count st = int (card {i. i < N \<and> suffix_flags words suffix_target ! i}) \<and>
            prefix_count st = int (card {i. i < N \<and> prefix_flags words prefix_target ! i}) \<and>
            expected_adjacent st =
              fmul F (fmul F (float_of_int F (int N - 1))
                              (int_truediv F (suffix_count st) (int N)))
                     (int_truediv F (prefix_count st) (int N)) \<and>
            observed_adjacent st =
              int (card {i. i < N - 1 \<and> suffix_flags words suffix_target ! i \<and>
                            prefix_flags words prefix_target ! (i + 1)}) \<and>
            ratio st =
              (if 0 < expected_adjacent st
               then Finite (fdiv F (float_of_int F (observed_adjacent st)) (expected_adjacent st))
               else Infinity)"
proof -
  define N where "N = length words"
  define scount where "scount = sum_flags (suffix_flags words suffix_target)"
  define pcount where "pcount = sum_flags (prefix_flags words prefix_target)"
  define expected where
    "expected = fmul F (fmul F (float_of_int F (int N - 1)) (int_truediv F scount (int N)))
                  (int_truediv F pcount (int N))"
  define observed where
    "observed = sum_list (map (\<lambda>idx. 1::int)
       (filter (\<lambda>idx. suffix_flags words suffix_target ! idx \<and>
                       prefix_flags words prefix_target ! (idx + 1)) [0..<nat (int N - 1)]))"
  have Npos: "0 < N" using assms(1) by (simp add: N_def)
  have st: "compute_pattern_stats F sc words suffix_target prefix_target =
      \<lparr> scope = sc, total_words = int N, suffix_count = scount, prefix_count = pcount,
        expected_adjacent = expected, observed_adjacent = observed,
        suffix_percent = fmul F (int_truediv F scount (int N)) (float_of_int F 100),
        prefix_percent = fmul F (int_truediv F pcount (int N)) (float_of_int F 100),
        ratio = (if expected \<noteq> 0
                 then Finite (fdiv F (float_of_int F observed) expected) else Infinity),
        p_value = poisson_tail observed expected \<rparr>"
    using Npos
    by (simp add: compute_pattern_stats_def Let_def N_def scount_def pcount_def expected_def
        observed_def)
  have sc: "scount = int (card {i. i < N \<and> suffix_flags words suffix_target ! i})"
    by (simp add: scount_def sum_flags_card length_suffix_flags N_def)
  have pc: "pcount = int (card {i. i < N \<and> prefix_flags words prefix_target ! i})"
    by (simp add: pcount_def sum_flags_card length_prefix_flags N_def)
  have ob: "observed = int (card {i. i < N - 1 \<and> suffix_flags words suffix_target ! i \<and>
                            prefix_flags words prefix_target ! (i + 1)})"
    unfolding observed_def count_ones_card using Npos by (simp add: nat_diff_distrib')
  have n1: "0 \<le> float_of_int F (int N - 1)" using conv Npos by simp
  have ps: "0 \<le> int_truediv F scount (int N)" using quot Npos sc by simp
  have pp: "0 \<le> int_truediv F pcount (int N)" using quot Npos pc by simp
  have "0 \<le> fmul F (float_of_int F (int N - 1)) (int_truediv F scount (int N))"
    using prod n1 ps by blast
  then have nonneg: "0 \<le> expected"
    unfolding expected_def using prod pp by blast
  have r: "(if expected \<noteq> 0
            then Finite (fdiv F (float_of_int F observed) expected) else Infinity) =
      (if 0 < expected
       then Finite (fdiv F (float_of_int F observed) expected) else Infinity)"
    using nonneg by auto
  show ?thesis
    unfolding Let_def N_def[symmetric] st using sc pc ob r by (simp add: expected_def)
qed

theorem compute_pattern_stats_formulas_witness:
  "example_words \<noteq> [] \<and>
   (let st = compute_pattern_stats binary64_ops (ustr ''example'') example_words
               [0x5DC, 0x5D5, 0x5DE] [0x5D5, 0x5D0, 0x5D7, 0x5D9]
    in total_words st = 5 \<and> suffix_count st = 1 \<and> prefix_count st = 1 \<and>
       expected_adjacent st = 1441151880758559 / 2 ^ 53 \<and> observed_adjacent st = 1 \<and>
       ratio st = Finite (7036874417766399 / 2 ^ 50))"
proof -
  let ?F = binary64_ops
  let ?st = "compute_pattern_stats ?F (ustr ''example'') example_words
               [0x5DC, 0x5D5, 0x5DE] [0x5D5, 0x5D0, 0x5D7, 0x5D9]"
  have ne: "example_words \<noteq> []" by (simp add: example_words_eq)
  have h1: "\<forall>i. 0 \<le> i \<longrightarrow> 0 \<le> float_of_int ?F i"
    by (simp add: binary64_ops_def binary64_nonneg)
  have h2: "\<forall>i j. 0 \<le> i \<and> 0 < j \<longrightarrow> 0 \<le> int_truediv ?F i j"
    by (simp add: binary64_ops_def binary64_nonneg)
  have h3: "\<forall>x y. 0 \<le> x \<and> 0 \<le> y \<longrightarrow> 0 \<le> fmul ?F x y"
    by (simp add: binary64_ops_def binary64_nonneg)
  have len: "length example_words = 5" by (simp add: example_words_eq)
  have five: "i < 5 \<longleftrightarrow> i = 0 \<or> i = 1 \<or> i = 2 \<or> i = 3 \<or> i = 4" for i :: nat by arith
  have four: "i < 5 - 1 \<longleftrightarrow> i = 0 \<or> i = 1 \<or> i = 2 \<or> i = 3" for i :: nat by arith
  have s: "{i. i < 5 \<and> [True, False, False, False, False] ! i} = {0}"
    unfolding five by auto
  have p: "{i. i < 5 \<and> [False, True, False, False, False] ! i} = {1}"
    unfolding five by auto
  have o: "{i. i < 5 - 1 \<and> [True, False, False, False, False] ! i \<and>
             [False, True, False, False, False] ! (i + 1)} = {0::nat}"
    unfolding four by auto
  have fifth: "binary64 (1 / 5) = 3602879701896397 / 2 ^ 54"
    by (subst binary64_eval[where k = "-3"]) (simp_all add: round_half_even_def Let_def pow2_def)
  have four_f: "binary64 4 = 4"
    by (subst binary64_eval[where k = 2]) (simp_all add: round_half_even_def Let_def pow2_def)
  have one_f: "binary64 1 = 1"
    by (subst binary64_eval[where k = 0]) (simp_all add: round_half_even_def Let_def pow2_def)
  have m1: "binary64 (4 * (3602879701896397 / 2 ^ 54)) = 3602879701896397 / 2 ^ 52"
    by (subst binary64_eval[where k = "-1"]) (simp_all add: round_half_even_def Let_def pow2_def)
  have m2: "binary64 (3602879701896397 / 2 ^ 52 * (3602879701896397 / 2 ^ 54)) =
      1441151880758559 / 2 ^ 53"
    by (subst binary64_eval[where k = "-3"]) (simp_all add: round_half_even_def Let_def pow2_def)
  have q: "binary64 (1 / (1441151880758559 / 2 ^ 53)) = 7036874417766399 / 2 ^ 50"
    by (subst binary64_eval[where k = 2]) (simp_all add: round_half_even_def Let_def pow2_def)
  note main = compute_pattern_stats_formulas[OF ne h1 h2 h3, of "ustr ''example''"
      "[0x5DC, 0x5D5, 0x5DE]" "[0x5D5, 0x5D0, 0x5D7, 0x5D9]",
      unfolded Let_def len example_suffix_flags example_flags s p o]
  from main have t: "total_words ?st = 5" by simp
  from main have sc: "suffix_count ?st = 1" by simp
  from main have pc: "prefix_count ?st = 1" by simp
  from main have "expected_adjacent ?st =
      fmul ?F (fmul ?F (float_of_int ?F (int 5 - 1)) (int_truediv ?F (suffix_count ?st) (int 5)))
        (int_truediv ?F (prefix_count ?st) (int 5))" by blast
  then have "expected_adjacent ?st =
      binary64 (binary64 (binary64 4 * binary64 (1 / 5)) * binary64 (1 / 5))"
    unfolding sc pc by (simp add: binary64_ops_def)
  then have ex: "expected_adjacent ?st = 1441151880758559 / 2 ^ 53"
    unfolding four_f fifth m1 m2 .
  from main have ob: "observed_adjacent ?st = 1" by simp
  have pos: "0 < expected_adjacent ?st" unfolding ex by simp
  from main have "ratio ?st =
      (if 0 < expected_adjacent ?st
       then Finite (fdiv ?F (float_of_int ?F (observed_adjacent ?st)) (expected_adjacent ?st))
       else Infinity)" by blast
  then have "ratio ?st = Finite (binary64 (binary64 1 / expected_adjacent ?st))"
    using pos unfolding ob by (simp add: binary64_ops_def)
  then have r: "ratio ?st = Finite (7036874417766399 / 2 ^ 50)"
    unfolding one_f ex q .
  from ne t sc pc ex ob r show ?thesis by (simp add: Let_def)
qed

section \<open>The Poisson tail\<close>

text \<open>
  C6. \<open>_poisson_tail\<close> returns 0.0 when the mean is not positive and the observed count is
  positive, 1.0 when the mean is not positive and the observed count is not positive, 1.0
  when the mean is positive and the observed count is not positive, and in the remaining
  case the sum accumulated by the loop capped at 1.0, which never exceeds 1.0. The loop
  returns for all arguments: \<open>poisson_loop\<close> is a total function.
\<close>

theorem poisson_tail_cases:
  "(lam \<le> 0 \<and> 0 < observed \<longrightarrow> poisson_tail observed lam = 0) \<and>
   (lam \<le> 0 \<and> observed \<le> 0 \<longrightarrow> poisson_tail observed lam = 1) \<and>
   (0 < lam \<and> observed \<le> 0 \<longrightarrow> poisson_tail observed lam = 1) \<and>
   (0 < lam \<and> 0 < observed \<longrightarrow>
      poisson_tail observed lam =
        min 1 (poisson_loop lam (nat observed)
                 (exp (of_int observed * ln lam - lam - lgamma (observed + 1)))
                 (exp (of_int observed * ln lam - lam - lgamma (observed + 1)))) \<and>
      poisson_tail observed lam \<le> 1)"
  by (simp add: poisson_tail_def Let_def)

theorem poisson_tail_cases_witness:
  "poisson_tail 3 0 = 0 \<and> poisson_tail 0 (- 1) = 1 \<and> poisson_tail 0 2 = 1 \<and>
   poisson_tail 3 2 \<le> 1"
  using poisson_tail_cases[of 0 3] poisson_tail_cases[of "- 1" 0] poisson_tail_cases[of 2 0]
    poisson_tail_cases[of 2 3]
  by simp

section \<open>Facts about the final-form table and the Hebrew database\<close>

lemma fold_final_cases:
  "translate_char FINAL_FORM_TRANSLATION c =
    (if c = 0x5DA then 0x5DB else if c = 0x5DD then 0x5DE
     else if c = 0x5DF then 0x5E0 else if c = 0x5E3 then 0x5E4
     else if c = 0x5E5 then 0x5E6 else c)"
  by (simp add: translate_char_def FINAL_FORM_TRANSLATION_def)

lemma translate_idem:
  "translate FINAL_FORM_TRANSLATION (translate FINAL_FORM_TRANSLATION s) =
     translate FINAL_FORM_TRANSLATION s"
  by (simp add: translate_def fold_final_cases)

lemma translate_filter_Mn:
  assumes "\<forall>p\<in>set FINAL_FORM_TRANSLATION.
             category U (fst p) \<noteq> ''Mn'' \<and> category U (snd p) \<noteq> ''Mn''"
  shows "filter (\<lambda>ch. category U ch \<noteq> ''Mn'') (translate FINAL_FORM_TRANSLATION s) =
         translate FINAL_FORM_TRANSLATION (filter (\<lambda>ch. category U ch \<noteq> ''Mn'') s)"
proof -
  have l: "category U 0x5DA \<noteq> ''Mn''" "category U 0x5DB \<noteq> ''Mn''"
    "category U 0x5DD \<noteq> ''Mn''" "category U 0x5DE \<noteq> ''Mn''"
    "category U 0x5DF \<noteq> ''Mn''" "category U 0x5E0 \<noteq> ''Mn''"
    "category U 0x5E3 \<noteq> ''Mn''" "category U 0x5E4 \<noteq> ''Mn''"
    "category U 0x5E5 \<noteq> ''Mn''" "category U 0x5E6 \<noteq> ''Mn''"
    using assms by (simp_all add: FINAL_FORM_TRANSLATION_def)
  have "(category U (translate_char FINAL_FORM_TRANSLATION c) \<noteq> ''Mn'') =
        (category U c \<noteq> ''Mn'')" for c
    using l by (simp add: fold_final_cases)
  then show ?thesis by (simp add: translate_def filter_map comp_def)
qed

lemma translate_no_maqaf:
  "maqaf \<notin> set s \<Longrightarrow> maqaf \<notin> set (translate FINAL_FORM_TRANSLATION s)"
  by (auto simp: translate_def fold_final_cases maqaf_def split: if_splits)

lemma translate_no_final:
  "set (translate FINAL_FORM_TRANSLATION s) \<inter> {0x5DA, 0x5DD, 0x5DF, 0x5E3, 0x5E5} = {}"
  by (auto simp: translate_def fold_final_cases split: if_splits)

text \<open>
  Canonical reordering keeps the characters of a string, returns a canonically ordered
  string, leaves such a string as it is, and commutes with every map on characters that
  keeps the combining class.
\<close>

lemma set_insert_mark: "set (insert_mark c xs) = insert c (set xs)"
  by (induction xs) auto

lemma set_canonical_order: "set (canonical_order xs) = set xs"
  by (induction xs) (auto simp: set_insert_mark)

lemma insert_mark_ordered:
  "canonically_ordered xs \<Longrightarrow> hebrew_ccc c \<noteq> 0 \<Longrightarrow> canonically_ordered (insert_mark c xs)"
proof (induction xs rule: canonically_ordered.induct)
  case 1
  then show ?case by simp
next
  case (2 x)
  then show ?case by auto
next
  case (3 x y ys)
  then show ?case by auto
qed

lemma canonical_order_ordered: "canonically_ordered (canonical_order xs)"
proof (induction xs)
  case Nil
  then show ?case by simp
next
  case (Cons c cs)
  show ?case
  proof (cases "hebrew_ccc c = 0")
    case True
    then show ?thesis using Cons by (cases "canonical_order cs") simp_all
  next
    case False
    then show ?thesis using Cons by (simp add: insert_mark_ordered)
  qed
qed

lemma canonical_order_fixed: "canonically_ordered xs \<Longrightarrow> canonical_order xs = xs"
  by (induction xs rule: canonically_ordered.induct) auto

lemma canonical_order_idem: "canonical_order (canonical_order xs) = canonical_order xs"
  by (rule canonical_order_fixed) (rule canonical_order_ordered)

lemma insert_mark_map:
  "(\<And>x. hebrew_ccc (f x) = hebrew_ccc x) \<Longrightarrow>
   insert_mark (f c) (map f xs) = map f (insert_mark c xs)"
  by (induction xs) auto

lemma canonical_order_map:
  "(\<And>x. hebrew_ccc (f x) = hebrew_ccc x) \<Longrightarrow>
   canonical_order (map f xs) = map f (canonical_order xs)"
  by (induction xs) (auto simp: insert_mark_map)

lemma hebrew_ccc_fold:
  "hebrew_ccc (translate_char FINAL_FORM_TRANSLATION c) = hebrew_ccc c"
  by (simp add: fold_final_cases hebrew_ccc_def hebrew_mark_def)

lemma hebrew_category_Mn: "hebrew_category c = ''Mn'' \<longleftrightarrow> hebrew_mark c"
  by (simp add: hebrew_category_def)

lemma hebrew_translate_commute:
  "canonical_order (translate FINAL_FORM_TRANSLATION s) =
     translate FINAL_FORM_TRANSLATION (canonical_order s)"
  unfolding translate_def by (rule canonical_order_map) (rule hebrew_ccc_fold)

section \<open>The maqaf\<close>

text \<open>
  C5 as stated fails for \<open>normalize_for_match\<close>: the maqaf U+05BE is punctuation (category
  Pd), not a nonspacing mark, and it is not in the final-form table, so it passes through.
  On the three-character string alef, maqaf, bet the output still contains the maqaf.
\<close>

theorem normalizer_keeps_maqaf_counterexample:
  "maqaf \<in> set (normalize_for_match hebrew_unicodedata [0x5D0, 0x5BE, 0x5D1])"
  by (simp add: hebrew_eval maqaf_def)

text \<open>
  C5, amended. The maqaf is stripped by \<open>strip_diacritics\<close>, the wrapper that the
  statistics script applies to the corpus words: it removes every U+05BE and then calls
  \<open>normalize_for_match\<close>. Its output contains no maqaf, for every input string and every
  Unicode database whose normalization forms do not introduce a maqaf into a string without
  one, and it contains none of the five final letters. \<open>normalize_for_match\<close> alone, which
  the search script and \<open>resolve_targets\<close> use, keeps the maqaf.
\<close>

theorem strip_diacritics_removes_maqaf:
  assumes nfd: "\<forall>x. maqaf \<notin> set x \<longrightarrow> maqaf \<notin> set (normalize U ''NFD'' x)"
    and nfc: "\<forall>x. maqaf \<notin> set x \<longrightarrow> maqaf \<notin> set (normalize U ''NFC'' x)"
  shows "strip_diacritics U s = normalize_for_match U (filter (\<lambda>ch. ch \<noteq> maqaf) s) \<and>
         maqaf \<notin> set (strip_diacritics U s) \<and>
         set (strip_diacritics U s) \<inter> {0x5DA, 0x5DD, 0x5DF, 0x5E3, 0x5E5} = {}"
proof -
  let ?t = "filter (\<lambda>ch. ch \<noteq> maqaf) s"
  have "maqaf \<notin> set ?t" by simp
  then have "maqaf \<notin> set (normalize U ''NFD'' ?t)" using nfd by blast
  then have "maqaf \<notin> set (filter (\<lambda>ch. category U ch \<noteq> ''Mn'') (normalize U ''NFD'' ?t))"
    by simp
  then have "maqaf \<notin> set (normalize U ''NFC''
      (filter (\<lambda>ch. category U ch \<noteq> ''Mn'') (normalize U ''NFD'' ?t)))"
    using nfc by blast
  then have "maqaf \<notin> set (normalize_for_match U ?t)"
    by (auto simp: normalize_for_match_def Let_def dest: translate_no_maqaf)
  moreover have "set (normalize_for_match U ?t) \<inter> {0x5DA, 0x5DD, 0x5DF, 0x5E3, 0x5E5} = {}"
    using translate_no_final by (simp add: normalize_for_match_def Let_def)
  ultimately show ?thesis by (simp add: strip_diacritics_def)
qed

theorem strip_diacritics_removes_maqaf_witness:
  "strip_diacritics hebrew_unicodedata
     [0x5D0, 0x5D1, 0x5D9, 0x5E9, 0x5DC, 0x5D5, 0x5B9, 0x5DD, 0x5BE] =
     [0x5D0, 0x5D1, 0x5D9, 0x5E9, 0x5DC, 0x5D5, 0x5DE] \<and>
   maqaf \<notin> set (strip_diacritics hebrew_unicodedata
     [0x5D0, 0x5D1, 0x5D9, 0x5E9, 0x5DC, 0x5D5, 0x5B9, 0x5DD, 0x5BE])"
proof -
  have n: "normalize hebrew_unicodedata f x = canonical_order x" for f x
    by (simp add: hebrew_unicodedata_def)
  have h1: "\<forall>x. maqaf \<notin> set x \<longrightarrow> maqaf \<notin> set (normalize hebrew_unicodedata ''NFD'' x)"
    by (simp add: n set_canonical_order)
  have h2: "\<forall>x. maqaf \<notin> set x \<longrightarrow> maqaf \<notin> set (normalize hebrew_unicodedata ''NFC'' x)"
    by (simp add: n set_canonical_order)
  have v: "strip_diacritics hebrew_unicodedata
     [0x5D0, 0x5D1, 0x5D9, 0x5E9, 0x5DC, 0x5D5, 0x5B9, 0x5DD, 0x5BE] =
     [0x5D0, 0x5D1, 0x5D9, 0x5E9, 0x5DC, 0x5D5, 0x5DE]"
    by (simp add: strip_diacritics_def maqaf_def hebrew_eval)
  from strip_diacritics_removes_maqaf[OF h1 h2] v show ?thesis by blast
qed

section \<open>Idempotence of the normalizer\<close>

text \<open>
  C9. \<open>normalize_for_match\<close> applied to its own output returns that output, for every
  string. The property rests on the normalization forms of \<open>unicodedata\<close>, which are a
  parameter here; it is proved for every database in which
  \<^item> NFD after NFC is NFD, and NFC after NFD is NFC;
  \<^item> the NFD form of a string obtained by removing the nonspacing marks from an NFD string
    contains no nonspacing mark;
  \<^item> folding the final letters commutes with NFD on NFC strings and with NFC on NFD
    strings (the ten letters of the table neither decompose nor compose);
  \<^item> none of the ten letters of the table is a nonspacing mark.
  The database of the Hebrew block satisfies all of them.
\<close>

theorem normalize_for_match_idempotent:
  assumes nfd_nfc: "\<forall>x. normalize U ''NFD'' (normalize U ''NFC'' x) = normalize U ''NFD'' x"
    and nfc_nfd: "\<forall>x. normalize U ''NFC'' (normalize U ''NFD'' x) = normalize U ''NFC'' x"
    and stripped_stable:
      "\<forall>x. \<forall>c\<in>set (normalize U ''NFD''
                (filter (\<lambda>ch. category U ch \<noteq> ''Mn'') (normalize U ''NFD'' x))).
           category U c \<noteq> ''Mn''"
    and fold_nfd:
      "\<forall>x. normalize U ''NFD'' (translate FINAL_FORM_TRANSLATION (normalize U ''NFC'' x)) =
           translate FINAL_FORM_TRANSLATION (normalize U ''NFD'' (normalize U ''NFC'' x))"
    and fold_nfc:
      "\<forall>x. normalize U ''NFC'' (translate FINAL_FORM_TRANSLATION (normalize U ''NFD'' x)) =
           translate FINAL_FORM_TRANSLATION (normalize U ''NFC'' (normalize U ''NFD'' x))"
    and letters:
      "\<forall>p\<in>set FINAL_FORM_TRANSLATION.
           category U (fst p) \<noteq> ''Mn'' \<and> category U (snd p) \<noteq> ''Mn''"
  shows "normalize_for_match U (normalize_for_match U s) = normalize_for_match U s"
proof (cases "s = []")
  case True
  then show ?thesis by (simp add: normalize_for_match_def)
next
  case nonempty: False
  let ?D = "normalize U ''NFD''" and ?C = "normalize U ''NFC''"
  let ?F = "filter (\<lambda>ch. category U ch \<noteq> ''Mn'')"
  let ?T = "translate FINAL_FORM_TRANSLATION"
  define y where "y = ?F (?D s)"
  have Ns: "normalize_for_match U s = ?T (?C y)"
    unfolding normalize_for_match_def[of U s] y_def Let_def using nonempty by simp
  show ?thesis
  proof (cases "?T (?C y) = []")
    case True
    have "normalize_for_match U [] = []" by (simp add: normalize_for_match_def)
    then show ?thesis unfolding Ns True .
  next
    case ne: False
    have NN: "normalize_for_match U (?T (?C y)) = ?T (?C (?F (?D (?T (?C y)))))"
      unfolding normalize_for_match_def[of U "?T (?C y)"] Let_def using ne by simp
    have "?D (?T (?C y)) = ?T (?D (?C y))" using fold_nfd by (rule spec)
    also have "?D (?C y) = ?D y" using nfd_nfc by (rule spec)
    finally have d: "?D (?T (?C y)) = ?T (?D y)" .
    have "\<forall>c\<in>set (?D y). category U c \<noteq> ''Mn''"
      unfolding y_def using stripped_stable by (rule spec)
    then have "?F (?D y) = ?D y" by (simp only: filter_id_conv)
    then have f: "?F (?T (?D y)) = ?T (?D y)"
      by (simp only: translate_filter_Mn[OF letters])
    have "?C (?T (?D y)) = ?T (?C (?D y))" using fold_nfc by (rule spec)
    also have "?C (?D y) = ?C y" using nfc_nfd by (rule spec)
    finally have c: "?C (?T (?D y)) = ?T (?C y)" .
    have "?T (?C (?F (?D (?T (?C y))))) = ?T (?T (?C y))"
      by (simp only: d f c)
    also have "\<dots> = ?T (?C y)" by (rule translate_idem)
    finally have "normalize_for_match U (?T (?C y)) = ?T (?C y)" unfolding NN .
    then show ?thesis unfolding Ns .
  qed
qed

theorem normalize_for_match_idempotent_witness:
  "normalize_for_match hebrew_unicodedata
     (normalize_for_match hebrew_unicodedata
        [0x5D0, 0x5D1, 0x5D9, 0x5E9, 0x5DC, 0x5D5, 0x5B9, 0x5DD, 0x5BE]) =
   normalize_for_match hebrew_unicodedata
     [0x5D0, 0x5D1, 0x5D9, 0x5E9, 0x5DC, 0x5D5, 0x5B9, 0x5DD, 0x5BE] \<and>
   normalize_for_match hebrew_unicodedata
     [0x5D0, 0x5D1, 0x5D9, 0x5E9, 0x5DC, 0x5D5, 0x5B9, 0x5DD, 0x5BE] =
   [0x5D0, 0x5D1, 0x5D9, 0x5E9, 0x5DC, 0x5D5, 0x5DE, 0x5BE]"
proof -
  let ?U = hebrew_unicodedata
  have n: "normalize ?U f x = canonical_order x" for f x
    by (simp add: hebrew_unicodedata_def)
  have c: "category ?U = hebrew_category" by (simp add: hebrew_unicodedata_def)
  have h1: "\<forall>x. normalize ?U ''NFD'' (normalize ?U ''NFC'' x) = normalize ?U ''NFD'' x"
    by (simp add: n canonical_order_idem)
  have h2: "\<forall>x. normalize ?U ''NFC'' (normalize ?U ''NFD'' x) = normalize ?U ''NFC'' x"
    by (simp add: n canonical_order_idem)
  have h3: "\<forall>x. \<forall>c\<in>set (normalize ?U ''NFD''
                (filter (\<lambda>ch. category ?U ch \<noteq> ''Mn'') (normalize ?U ''NFD'' x))).
           category ?U c \<noteq> ''Mn''"
    by (simp add: n set_canonical_order)
  have h4: "\<forall>x. normalize ?U ''NFD'' (translate FINAL_FORM_TRANSLATION (normalize ?U ''NFC'' x)) =
           translate FINAL_FORM_TRANSLATION (normalize ?U ''NFD'' (normalize ?U ''NFC'' x))"
    by (simp add: n hebrew_translate_commute)
  have h5: "\<forall>x. normalize ?U ''NFC'' (translate FINAL_FORM_TRANSLATION (normalize ?U ''NFD'' x)) =
           translate FINAL_FORM_TRANSLATION (normalize ?U ''NFC'' (normalize ?U ''NFD'' x))"
    by (simp add: n hebrew_translate_commute)
  have h6: "\<forall>p\<in>set FINAL_FORM_TRANSLATION.
           category ?U (fst p) \<noteq> ''Mn'' \<and> category ?U (snd p) \<noteq> ''Mn''"
    by (simp add: c FINAL_FORM_TRANSLATION_def hebrew_category_Mn hebrew_mark_def)
  have v: "normalize_for_match ?U [0x5D0, 0x5D1, 0x5D9, 0x5E9, 0x5DC, 0x5D5, 0x5B9, 0x5DD, 0x5BE] =
      [0x5D0, 0x5D1, 0x5D9, 0x5E9, 0x5DC, 0x5D5, 0x5DE, 0x5BE]"
    by (simp add: hebrew_eval)
  from normalize_for_match_idempotent[OF h1 h2 h3 h4 h5 h6] v show ?thesis by blast
qed

end
